theory Spec2Isabelle
  imports Complex_Main
begin

section \<open>Page-snap scroll navigation and theme toggle: the two script variants\<close>

text \<open>
  The repository holds two near-duplicate controllers: \<^verbatim>\<open>script.js\<close> (theme toggle,
  paging, stabilisation after a theme switch) and an unnamed variant (paging with settle
  detection and a full re-initialisation on theme change). Most functions are the same
  text in both files; where they differ, the definitions below take the variant as a
  parameter or exist once per file.

  How the code is read:
  \<^item> The variables of the closure are the record \<open>ctl\<close>; what the scripts reach through
    \<^verbatim>\<open>window\<close> and \<^verbatim>\<open>document\<close> is the record \<open>browser\<close>. Every function takes the
    pair and returns the new pair.
  \<^item> Numbers of the page geometry and of wheel events (\<^verbatim>\<open>rect.top\<close>, \<^verbatim>\<open>scrollY\<close>,
    \<^verbatim>\<open>deltaY\<close>, the wheel accumulator) are JavaScript numbers, the type \<open>number\<close>
    below: additions and subtractions round to the nearest double, comparisons are those
    of JavaScript. Indices into the section list are integers.
  \<^item> \<^verbatim>\<open>setTimeout\<close> enters the callback into a table under a fresh identifier, with the
    time at which it is due on a clock of milliseconds; \<^verbatim>\<open>clearTimeout\<close> removes the
    entry. A callback is a constructor of \<open>callback\<close>, run by \<open>run_callback\<close>.
  \<^item> A method call on a reference that may be null is a \<^verbatim>\<open>TypeError\<close>, the one
    exception the code could raise: fallible functions return \<open>error + _\<close>.
  \<^item> A scroll request is appended to a log; the scroll position itself belongs to the
    page and changes with it.
\<close>

datatype variant = ScriptJs | Part000

subsection \<open>JavaScript numbers\<close>

text \<open>
  A JavaScript number is an IEEE 754 double: \<open>Fin x\<close> is the finite double of value
  \<open>x\<close>, next to the two infinities and NaN. The sign of zero is not kept: no
  comparison, sum or scroll request of the two files tells \<open>-0\<close> from \<open>0\<close>. The
  arithmetic is defined on every real \<open>x\<close>; the doubles are the \<open>x\<close> with
  \<open>round64 x = Fin x\<close>, and every result of the arithmetic is one of them.

  \<open>bits n\<close> is the length of the binary numeral of \<open>n\<close>, \<open>expo a\<close> the exponent
  of the power of two at or below \<open>a\<close>, and \<open>ulp_exp a\<close> the exponent of the spacing
  of the doubles around \<open>a\<close>: 52 below \<open>expo a\<close>, and \<open>-1074\<close> for the subnormal
  numbers. \<open>round64\<close> rounds to the nearest multiple of that spacing, a tie to the even
  multiple, and a magnitude of \<open>2 ^ 1024\<close> or more to an infinity.
\<close>

datatype number = Fin real | PosInf | NegInf | NaN

function bits :: "int \<Rightarrow> int" where
  "bits n = (if n \<le> 0 then 0 else 1 + bits (n div 2))"
  by pat_completeness auto

termination
  by (relation "measure nat") auto

declare bits.simps [simp del]

definition pow2 :: "int \<Rightarrow> real" where
  "pow2 k = (if 0 \<le> k then 2 ^ nat k else 1 / 2 ^ nat (- k))"

definition expo :: "real \<Rightarrow> int" where
  "expo a = (if 1 \<le> a then bits \<lfloor>a\<rfloor> - 1 else - bits (\<lceil>1 / a\<rceil> - 1))"

definition ulp_exp :: "real \<Rightarrow> int" where
  "ulp_exp a = max (expo a - 52) (- 1074)"

definition ties_even :: "real \<Rightarrow> int \<Rightarrow> int" where
  "ties_even s n =
     (if s - of_int n < 1 / 2 then n
      else if 1 / 2 < s - of_int n then n + 1
      else if even n then n else n + 1)"

definition round_mag :: "real \<Rightarrow> real" where
  "round_mag a =
     of_int (ties_even (a / pow2 (ulp_exp a)) \<lfloor>a / pow2 (ulp_exp a)\<rfloor>) * pow2 (ulp_exp a)"

definition round64 :: "real \<Rightarrow> number" where
  "round64 x =
     (if x = 0 then Fin 0
      else if 2 ^ 1024 \<le> round_mag \<bar>x\<bar> then (if 0 < x then PosInf else NegInf)
      else Fin (if 0 < x then round_mag \<bar>x\<bar> else - round_mag \<bar>x\<bar>))"

text \<open>
  The operators the two files use: \<^verbatim>\<open>+\<close>, \<^verbatim>\<open>-\<close>, \<^verbatim>\<open>Math.abs\<close> and
  \<^verbatim>\<open><\<close> (\<^verbatim>\<open>a > b\<close> is \<open>num_lt b a\<close>). A comparison with NaN is false.
\<close>

fun num_neg :: "number \<Rightarrow> number" where
  "num_neg (Fin x) = Fin (- x)"
| "num_neg PosInf = NegInf"
| "num_neg NegInf = PosInf"
| "num_neg NaN = NaN"

fun num_add :: "number \<Rightarrow> number \<Rightarrow> number" where
  "num_add (Fin x) (Fin y) = round64 (x + y)"
| "num_add NaN b = NaN"
| "num_add a NaN = NaN"
| "num_add PosInf NegInf = NaN"
| "num_add NegInf PosInf = NaN"
| "num_add PosInf b = PosInf"
| "num_add a PosInf = PosInf"
| "num_add NegInf b = NegInf"
| "num_add a NegInf = NegInf"

definition num_sub :: "number \<Rightarrow> number \<Rightarrow> number" where
  "num_sub a b = num_add a (num_neg b)"

fun num_abs :: "number \<Rightarrow> number" where
  "num_abs (Fin x) = Fin \<bar>x\<bar>"
| "num_abs PosInf = PosInf"
| "num_abs NegInf = PosInf"
| "num_abs NaN = NaN"

fun num_lt :: "number \<Rightarrow> number \<Rightarrow> bool" where
  "num_lt (Fin x) (Fin y) = (x < y)"
| "num_lt (Fin x) PosInf = True"
| "num_lt NegInf (Fin y) = True"
| "num_lt NegInf PosInf = True"
| "num_lt a b = False"

subsection \<open>Constants\<close>

text \<open>
  \<^verbatim>\<open>script.js\<close> lines 15 and 41 to 44, the unnamed file lines 7 to 15. The two files
  agree on every constant but \<^verbatim>\<open>MAX_LOCK_MS\<close>.
\<close>

definition THEME_KEY :: string where
  "THEME_KEY = ''themeMode''"

definition HEADER_OFFSET :: number where
  "HEADER_OFFSET = Fin 80"

definition WHEEL_ACCUM_THRESHOLD :: number where
  "WHEEL_ACCUM_THRESHOLD = Fin 60"

definition WHEEL_RESET_MS :: nat where
  "WHEEL_RESET_MS = 140"

definition SETTLE_CHECK_MS :: nat where
  "SETTLE_CHECK_MS = 80"

definition SETTLE_REQUIRED_STEPS :: nat where
  "SETTLE_REQUIRED_STEPS = 4"

fun MAX_LOCK_MS :: "variant \<Rightarrow> nat" where
  "MAX_LOCK_MS ScriptJs = 900"
| "MAX_LOCK_MS Part000 = 1300"

subsection \<open>The browser as the scripts see it\<close>

text \<open>
  An element reference is a number. The part of the document the scripts only read
  (layout, focus, the overlay) is the record \<open>page\<close>; the browser changes it between
  events.
\<close>

type_synonym elem = nat

record active_element =
  tagName :: string
  isContentEditable :: bool

record viewer_el =
  style_display :: string

record page =
  dom_sections :: "elem list"
  rect_top :: "elem \<Rightarrow> number"
  scrollY :: number
  viewer :: "viewer_el option"
  activeElement :: "active_element option"

datatype behavior = Smooth | Auto

datatype scroll_cmd = ScrollTo number behavior | ScrollIntoView elem

text \<open>
  The functions handed to \<^verbatim>\<open>setTimeout\<close> and \<^verbatim>\<open>requestAnimationFrame\<close>, one
  constructor per closure of the two files. \<open>StabilizeFinish\<close> carries the captured
  \<^verbatim>\<open>prevBehavior\<close>, \<open>SettleCheck\<close> the closure of one \<^verbatim>\<open>waitForSettle\<close> call.
\<close>

datatype callback =
    LockExpire
  | WheelReset
  | JumpDone
  | HashSync
  | ThemeStabilize
  | StabilizeFrame1 string
  | StabilizeFrame2 string
  | StabilizeFinish string
  | SettleCheck nat
  | ReInitFrame1
  | ReInitFrame2

datatype listener =
    LDOMContentLoaded
  | LWheel
  | LKeyDown
  | LResize
  | LHashChange
  | LSwitchChange
  | LBodyObserver

record settle =
  lastY :: number
  stableSteps :: nat
  cancelled :: bool

record browser =
  page :: page
  themeSwitch :: "bool option"
  body_light :: bool
  localStorage :: "string \<rightharpoonup> string"
  html_scrollBehavior :: string
  now :: nat
  nextTimer :: nat
  timers :: "nat \<rightharpoonup> (nat \<times> callback)"
  frames :: "callback list"
  listeners :: "listener list"
  scrolls :: "scroll_cmd list"
  nextSettle :: nat
  settles :: "nat \<rightharpoonup> settle"

text \<open>The variables of the controller's closure (the union of both files).\<close>

record ctl =
  sections :: "elem list"
  currentIndex :: int
  locked :: bool
  lockTimer :: "nat option"
  wheelAccum :: number
  wheelResetTimer :: "nat option"
  listenersAttached :: bool
  themeStabilizeTimer :: "nat option"
  settleStopper :: "nat option"

datatype error = TypeError

record wheel_box =
  scrollHeight :: int
  clientHeight :: int

record wheel_target =
  closest_project_info :: "wheel_box option"
  closest_textarea :: bool

record wheel_event =
  deltaY :: number
  target :: "wheel_target option"

record key_event =
  key :: string
  repeat :: bool

text \<open>
  What a handler did to its event and which navigation function it called; the calls
  are recorded so that "no navigation was triggered" can be stated.
\<close>

datatype nav = NavNext | NavPrev | NavJump int

record outcome =
  defaultPrevented :: bool
  navCalled :: "nav option"

subsection \<open>Browser primitives\<close>

definition setTimeout :: "callback \<Rightarrow> nat \<Rightarrow> browser \<Rightarrow> nat \<times> browser" where
  "setTimeout cb ms b =
     (nextTimer b,
      b\<lparr>timers := (timers b)(nextTimer b \<mapsto> (now b + ms, cb)),
        nextTimer := nextTimer b + 1\<rparr>)"

definition clearTimeout :: "nat \<Rightarrow> browser \<Rightarrow> browser" where
  "clearTimeout t b = b\<lparr>timers := (timers b)(t := None)\<rparr>"

definition requestAnimationFrame :: "callback \<Rightarrow> browser \<Rightarrow> browser" where
  "requestAnimationFrame cb b = b\<lparr>frames := frames b @ [cb]\<rparr>"

definition addEventListener :: "listener \<Rightarrow> browser \<Rightarrow> browser" where
  "addEventListener l b = b\<lparr>listeners := List.insert l (listeners b)\<rparr>"

definition removeEventListener :: "listener \<Rightarrow> browser \<Rightarrow> browser" where
  "removeEventListener l b = b\<lparr>listeners := removeAll l (listeners b)\<rparr>"

text \<open>Writing a property of, or calling a method on, a reference that may be null.\<close>

definition set_checked :: "bool \<Rightarrow> browser \<Rightarrow> error + browser" where
  "set_checked v b =
     (case themeSwitch b of
        None \<Rightarrow> Inl TypeError
      | Some _ \<Rightarrow> Inr (b\<lparr>themeSwitch := Some v\<rparr>))"

definition addSwitchListener :: "browser \<Rightarrow> error + browser" where
  "addSwitchListener b =
     (case themeSwitch b of
        None \<Rightarrow> Inl TypeError
      | Some _ \<Rightarrow> Inr (addEventListener LSwitchChange b))"

definition nth_js :: "'a list \<Rightarrow> int \<Rightarrow> 'a option" where
  "nth_js xs i = (if 0 \<le> i \<and> i < int (length xs) then Some (xs ! nat i) else None)"

text \<open>
  \<^verbatim>\<open>toLowerCase\<close> on the ASCII letters of a tag name: an upper-case letter
  (codes 65 to 90) gets bit 5 set.
\<close>

definition lower_char :: "char \<Rightarrow> char" where
  "lower_char ch =
     (let n = (of_char ch :: nat)
      in if 65 \<le> n \<and> n \<le> 90
         then (case ch of Char b0 b1 b2 b3 b4 b5 b6 b7 \<Rightarrow> Char b0 b1 b2 b3 b4 True b6 b7)
         else ch)"

definition toLowerCase :: "string \<Rightarrow> string" where
  "toLowerCase s = map lower_char s"

subsection \<open>Helpers shared by both files\<close>

text \<open>
  \<^verbatim>\<open>getSections\<close> to \<^verbatim>\<open>nearestSectionIndex\<close>, \<^verbatim>\<open>syncState\<close>,
  \<^verbatim>\<open>lockInput\<close>, \<^verbatim>\<open>unlockInput\<close>, \<^verbatim>\<open>attachListeners\<close> and
  \<^verbatim>\<open>detachListeners\<close>: \<^verbatim>\<open>script.js\<close> lines 58 to 132 and 203 to 215, the unnamed
  file lines 31 to 105 and 204 to 222. \<^verbatim>\<open>lockInput\<close> takes the variant for its
  \<^verbatim>\<open>MAX_LOCK_MS\<close>.
\<close>

definition getSections :: "browser \<Rightarrow> elem list" where
  "getSections b = dom_sections (page b)"

definition clamp :: "int \<Rightarrow> int \<Rightarrow> int \<Rightarrow> int" where
  "clamp n lo hi = max lo (min hi n)"

definition isOverlayOpen :: "browser \<Rightarrow> bool" where
  "isOverlayOpen b =
     (case viewer (page b) of
        None \<Rightarrow> False
      | Some v \<Rightarrow> style_display v = ''flex'')"

definition isTyping :: "browser \<Rightarrow> bool" where
  "isTyping b =
     (case activeElement (page b) of
        None \<Rightarrow> False
      | Some el \<Rightarrow>
          (let tag = toLowerCase (tagName el)
           in tag = ''input'' \<or> tag = ''textarea'' \<or> isContentEditable el))"

definition isInsideScrollable :: "wheel_target option \<Rightarrow> bool" where
  "isInsideScrollable tg =
     (case tg of
        None \<Rightarrow> False
      | Some t \<Rightarrow>
          (case closest_project_info t of
             Some pinfo \<Rightarrow>
               if scrollHeight pinfo > clientHeight pinfo then True else closest_textarea t
           | None \<Rightarrow> closest_textarea t))"

text \<open>
  The \<^verbatim>\<open>forEach\<close> of \<^verbatim>\<open>nearestSectionIndex\<close>: the pair is
  \<^verbatim>\<open>(bestIdx, bestDist)\<close>, at first \<^verbatim>\<open>(0, Infinity)\<close>.
\<close>

fun nearest_loop :: "(elem \<Rightarrow> number) \<Rightarrow> elem list \<Rightarrow> int \<Rightarrow> int \<times> number \<Rightarrow> int \<times> number" where
  "nearest_loop tp [] idx best = best"
| "nearest_loop tp (sec # rest) idx best =
     (let dist = num_abs (num_sub (tp sec) HEADER_OFFSET)
      in if num_lt dist (snd best)
         then nearest_loop tp rest (idx + 1) (idx, dist)
         else nearest_loop tp rest (idx + 1) best)"

definition nearestSectionIndex :: "ctl \<Rightarrow> browser \<Rightarrow> int" where
  "nearestSectionIndex c b = fst (nearest_loop (rect_top (page b)) (sections c) 0 (0, PosInf))"

definition syncState :: "ctl \<times> browser \<Rightarrow> ctl \<times> browser" where
  "syncState w =
     (case w of (c, b) \<Rightarrow>
        (let c1 = c\<lparr>sections := getSections b\<rparr>
         in if sections c1 = [] then (c1, b)
            else (c1\<lparr>currentIndex := nearestSectionIndex c1 b\<rparr>, b)))"

text \<open>\<^verbatim>\<open>if (t) clearTimeout(t)\<close>: timer identifiers are positive, so a set variable is truthy.\<close>

definition clearIfSet :: "nat option \<Rightarrow> browser \<Rightarrow> browser" where
  "clearIfSet t b = (case t of Some i \<Rightarrow> clearTimeout i b | None \<Rightarrow> b)"

definition lockInput :: "variant \<Rightarrow> ctl \<times> browser \<Rightarrow> ctl \<times> browser" where
  "lockInput v w =
     (case w of (c, b) \<Rightarrow>
        (let c1 = c\<lparr>locked := True\<rparr>;
             b1 = clearIfSet (lockTimer c1) b;
             (t, b2) = setTimeout LockExpire (MAX_LOCK_MS v) b1
         in (c1\<lparr>lockTimer := Some t\<rparr>, b2)))"

definition unlockInput :: "ctl \<times> browser \<Rightarrow> ctl \<times> browser" where
  "unlockInput w =
     (case w of (c, b) \<Rightarrow>
        (let c1 = c\<lparr>locked := False\<rparr>;
             b1 = clearIfSet (lockTimer c1) b
         in (c1\<lparr>lockTimer := None\<rparr>, b1)))"

definition attachListeners :: "ctl \<times> browser \<Rightarrow> ctl \<times> browser" where
  "attachListeners w =
     (case w of (c, b) \<Rightarrow>
        if listenersAttached c then (c, b)
        else (c\<lparr>listenersAttached := True\<rparr>,
              addEventListener LKeyDown (addEventListener LWheel b)))"

definition detachListeners :: "ctl \<times> browser \<Rightarrow> ctl \<times> browser" where
  "detachListeners w =
     (case w of (c, b) \<Rightarrow>
        if \<not> listenersAttached c then (c, b)
        else (c\<lparr>listenersAttached := False\<rparr>,
              removeEventListener LKeyDown (removeEventListener LWheel b)))"

subsection \<open>\<^verbatim>\<open>script.js\<close>: timers, jump, stabilisation, theme\<close>

text \<open>
  Lines 17 to 38 (theme), 112 to 118, 134 to 150, 218 to 221 and 249 to 265. The body of
  the stabilisation timer (lines 222 to 245) is in \<open>run_callback\<close> below.
\<close>

definition clearTimers :: "ctl \<times> browser \<Rightarrow> ctl \<times> browser" where
  "clearTimers w =
     (case w of (c, b) \<Rightarrow>
        (let b1 = clearIfSet (lockTimer c) b;
             c1 = c\<lparr>lockTimer := None\<rparr>;
             b2 = clearIfSet (wheelResetTimer c1) b1;
             c2 = c1\<lparr>wheelResetTimer := None\<rparr>
         in (c2, b2)))"

definition scrollTo :: "number \<Rightarrow> behavior \<Rightarrow> browser \<Rightarrow> browser" where
  "scrollTo tp bh b = b\<lparr>scrolls := scrolls b @ [ScrollTo tp bh]\<rparr>"

definition jumpToIndex :: "int \<Rightarrow> behavior \<Rightarrow> ctl \<times> browser \<Rightarrow> error + ctl \<times> browser" where
  "jumpToIndex idx bh w =
     (case w of (c, b) \<Rightarrow>
        if sections c = [] then Inr (c, b)
        else
          (let c1 = c\<lparr>currentIndex := nearestSectionIndex c b\<rparr>;
               c2 = c1\<lparr>currentIndex := clamp idx 0 (int (length (sections c1)) - 1)\<rparr>
           in case nth_js (sections c2) (currentIndex c2) of
                None \<Rightarrow> Inl TypeError
              | Some sec \<Rightarrow>
                  (let targetTop =
                         num_sub (num_add (scrollY (page b)) (rect_top (page b) sec)) HEADER_OFFSET;
                       (c3, b3) = lockInput ScriptJs (c2, b);
                       b4 = scrollTo targetTop bh b3;
                       (t, b5) = setTimeout JumpDone (if bh = Smooth then 380 else 140) b4
                   in Inr (c3, b5))))"

definition stabilizeAfterThemeSwitch :: "ctl \<times> browser \<Rightarrow> ctl \<times> browser" where
  "stabilizeAfterThemeSwitch w =
     (case w of (c, b) \<Rightarrow>
        (let b1 = clearIfSet (themeStabilizeTimer c) b;
             (t, b2) = setTimeout ThemeStabilize 50 b1
         in (c\<lparr>themeStabilizeTimer := Some t\<rparr>, b2)))"

definition applyTheme :: "string \<Rightarrow> ctl \<times> browser \<Rightarrow> error + ctl \<times> browser" where
  "applyTheme mode w =
     (case w of (c, b) \<Rightarrow>
        (let b1 = b\<lparr>body_light := (mode = ''light'')\<rparr>;
             b2 = b1\<lparr>localStorage := (localStorage b1)(THEME_KEY \<mapsto> mode)\<rparr>;
             sw = themeSwitch b2
         in case (if sw \<noteq> None then set_checked (mode = ''light'') b2 else Inr b2) of
              Inl e \<Rightarrow> Inl e
            | Inr b3 \<Rightarrow> Inr (stabilizeAfterThemeSwitch (c, b3))))"

definition initTheme :: "ctl \<times> browser \<Rightarrow> error + ctl \<times> browser" where
  "initTheme w =
     (case w of (c, b) \<Rightarrow>
        (let saved = localStorage b THEME_KEY
         in case applyTheme (if saved = Some ''light'' then ''light'' else ''dark'') (c, b) of
              Inl e \<Rightarrow> Inl e
            | Inr (c1, b1) \<Rightarrow>
                (let sw = themeSwitch b1
                 in if sw = None then Inr (c1, b1)
                    else (case addSwitchListener b1 of
                            Inl e \<Rightarrow> Inl e
                          | Inr b2 \<Rightarrow> Inr (c1, b2)))))"

definition initScroll :: "ctl \<times> browser \<Rightarrow> ctl \<times> browser" where
  "initScroll w =
     (case attachListeners (syncState w) of (c, b) \<Rightarrow>
        (c, addEventListener LHashChange (addEventListener LResize b)))"

definition destroy :: "ctl \<times> browser \<Rightarrow> ctl \<times> browser" where
  "destroy w =
     (case clearTimers (detachListeners w) of (c, b) \<Rightarrow>
        (let b1 = removeEventListener LResize b;
             b2 = clearIfSet (themeStabilizeTimer c) b1
         in (c\<lparr>themeStabilizeTimer := None\<rparr>, b2)))"

subsection \<open>The unnamed variant: settle detection, scroll, re-initialisation\<close>

text \<open>
  Lines 79 to 90, 107 to 147 and 224 to 239. Each call of \<^verbatim>\<open>waitForSettle\<close> creates a
  closure over \<^verbatim>\<open>lastY\<close>, \<^verbatim>\<open>stableSteps\<close> and \<^verbatim>\<open>cancelled\<close>: the closures live
  in the store \<open>settles\<close>, \<^verbatim>\<open>settleStopper\<close> holds the address of the latest one,
  and \<open>settle_check\<close> is the function \<^verbatim>\<open>check\<close> of the closure at an address.
\<close>

definition stopSettle :: "nat \<Rightarrow> browser \<Rightarrow> browser" where
  "stopSettle sid b =
     (case settles b sid of
        None \<Rightarrow> b
      | Some cl \<Rightarrow> b\<lparr>settles := (settles b)(sid \<mapsto> cl\<lparr>cancelled := True\<rparr>)\<rparr>)"

definition clearAllTimers :: "ctl \<times> browser \<Rightarrow> ctl \<times> browser" where
  "clearAllTimers w =
     (case w of (c, b) \<Rightarrow>
        (let b1 = clearIfSet (lockTimer c) b;
             c1 = c\<lparr>lockTimer := None\<rparr>;
             b2 = clearIfSet (wheelResetTimer c1) b1;
             c2 = c1\<lparr>wheelResetTimer := None\<rparr>
         in case settleStopper c2 of
              None \<Rightarrow> (c2, b2)
            | Some sid \<Rightarrow> (c2\<lparr>settleStopper := None\<rparr>, stopSettle sid b2)))"

definition waitForSettle :: "ctl \<times> browser \<Rightarrow> ctl \<times> browser" where
  "waitForSettle w =
     (case w of (c, b) \<Rightarrow>
        (let sid = nextSettle b;
             cl = \<lparr>lastY = scrollY (page b), stableSteps = 0, cancelled = False\<rparr>;
             b1 = b\<lparr>nextSettle := sid + 1, settles := (settles b)(sid \<mapsto> cl)\<rparr>;
             c1 = c\<lparr>settleStopper := Some sid\<rparr>;
             (t, b2) = setTimeout (SettleCheck sid) SETTLE_CHECK_MS b1
         in (c1, b2)))"

definition settle_check :: "nat \<Rightarrow> ctl \<times> browser \<Rightarrow> ctl \<times> browser" where
  "settle_check sid w =
     (case w of (c, b) \<Rightarrow>
        (case settles b sid of
           None \<Rightarrow> (c, b)
         | Some cl \<Rightarrow>
             if cancelled cl then (c, b)
             else
               (let y = scrollY (page b);
                    st = (if num_lt (num_abs (num_sub y (lastY cl))) (Fin 1)
                          then stableSteps cl + 1 else 0);
                    b1 = b\<lparr>settles := (settles b)(sid \<mapsto> cl\<lparr>stableSteps := st, lastY := y\<rparr>)\<rparr>
                in if st \<ge> SETTLE_REQUIRED_STEPS
                   then (case unlockInput (c\<lparr>currentIndex := nearestSectionIndex c b1\<rparr>, b1) of
                           (c2, b2) \<Rightarrow> (c2\<lparr>settleStopper := None\<rparr>, b2))
                   else (c, snd (setTimeout (SettleCheck sid) SETTLE_CHECK_MS b1)))))"

definition scrollIntoView :: "elem \<Rightarrow> browser \<Rightarrow> browser" where
  "scrollIntoView sec b = b\<lparr>scrolls := scrolls b @ [ScrollIntoView sec]\<rparr>"

definition scrollToIndex :: "int \<Rightarrow> ctl \<times> browser \<Rightarrow> error + ctl \<times> browser" where
  "scrollToIndex idx w =
     (case w of (c, b) \<Rightarrow>
        if sections c = [] then Inr (c, b)
        else
          (let c1 = c\<lparr>currentIndex := nearestSectionIndex c b\<rparr>;
               c2 = c1\<lparr>currentIndex := clamp idx 0 (int (length (sections c1)) - 1)\<rparr>;
               (c3, b3) = lockInput Part000 (c2, b)
           in case nth_js (sections c3) (currentIndex c3) of
                None \<Rightarrow> Inl TypeError
              | Some sec \<Rightarrow> Inr (waitForSettle (c3, scrollIntoView sec b3))))"

definition hardReInit :: "ctl \<times> browser \<Rightarrow> ctl \<times> browser" where
  "hardReInit w =
     (case clearAllTimers (detachListeners w) of (c, b) \<Rightarrow>
        (c\<lparr>locked := False, wheelAccum := Fin 0\<rparr>, requestAnimationFrame ReInitFrame1 b))"

subsection \<open>Navigation and the input handlers (the same text in both files)\<close>

text \<open>
  \<^verbatim>\<open>script.js\<close> lines 152 to 201, the unnamed file lines 149 to 201. \<open>navTo\<close> is
  the jump function of the file: \<^verbatim>\<open>jumpToIndex(idx, "smooth")\<close> or
  \<^verbatim>\<open>scrollToIndex(idx)\<close>. A handler returns, next to the state, whether it called
  \<^verbatim>\<open>preventDefault\<close> and which navigation function it called (\<open>called\<close> records
  the call, \<open>untouched\<close> is the outcome of a handler that did neither).
\<close>

definition navTo :: "variant \<Rightarrow> int \<Rightarrow> ctl \<times> browser \<Rightarrow> error + ctl \<times> browser" where
  "navTo v idx w = (case v of ScriptJs \<Rightarrow> jumpToIndex idx Smooth w | Part000 \<Rightarrow> scrollToIndex idx w)"

definition next_nav :: "variant \<Rightarrow> ctl \<times> browser \<Rightarrow> error + ctl \<times> browser" where
  "next_nav v w = navTo v (currentIndex (fst w) + 1) w"

definition prev_nav :: "variant \<Rightarrow> ctl \<times> browser \<Rightarrow> error + ctl \<times> browser" where
  "prev_nav v w = navTo v (currentIndex (fst w) - 1) w"

definition untouched :: outcome where
  "untouched = \<lparr>defaultPrevented = False, navCalled = None\<rparr>"

definition called :: "nav \<Rightarrow> error + ctl \<times> browser \<Rightarrow> error + outcome \<times> ctl \<times> browser" where
  "called n r =
     (case r of
        Inl e \<Rightarrow> Inl e
      | Inr w \<Rightarrow> Inr (\<lparr>defaultPrevented = True, navCalled = Some n\<rparr>, w))"

definition onWheel :: "variant \<Rightarrow> wheel_event \<Rightarrow> ctl \<times> browser \<Rightarrow> error + outcome \<times> ctl \<times> browser" where
  "onWheel v e w =
     (case w of (c, b) \<Rightarrow>
        if isOverlayOpen b then Inr (untouched, c, b)
        else if isTyping b then Inr (untouched, c, b)
        else if isInsideScrollable (target e) then Inr (untouched, c, b)
        else if locked c then Inr (\<lparr>defaultPrevented = True, navCalled = None\<rparr>, c, b)
        else
          (let c1 = c\<lparr>wheelAccum := num_add (wheelAccum c) (deltaY e)\<rparr>;
               b1 = clearIfSet (wheelResetTimer c1) b;
               (t, b2) = setTimeout WheelReset WHEEL_RESET_MS b1;
               c2 = c1\<lparr>wheelResetTimer := Some t\<rparr>
           in if num_lt (num_abs (wheelAccum c2)) WHEEL_ACCUM_THRESHOLD then Inr (untouched, c2, b2)
              else
                (let dir = (if num_lt (Fin 0) (wheelAccum c2) then 1 else - 1 :: int);
                     c3 = c2\<lparr>wheelAccum := Fin 0\<rparr>
                 in if dir = 1 then called NavNext (next_nav v (c3, b2))
                    else called NavPrev (prev_nav v (c3, b2)))))"

definition nextKeys :: "string list" where
  "nextKeys = [''ArrowDown'', ''PageDown'', '' '']"

definition prevKeys :: "string list" where
  "prevKeys = [''ArrowUp'', ''PageUp'']"

definition onKeyDown :: "variant \<Rightarrow> key_event \<Rightarrow> ctl \<times> browser \<Rightarrow> error + outcome \<times> ctl \<times> browser" where
  "onKeyDown v e w =
     (case w of (c, b) \<Rightarrow>
        if isOverlayOpen b then Inr (untouched, c, b)
        else if isTyping b then Inr (untouched, c, b)
        else
          (let k = key e
           in if k \<notin> set (nextKeys @ prevKeys @ [''Home'', ''End'']) then Inr (untouched, c, b)
              else if locked c then Inr (\<lparr>defaultPrevented = True, navCalled = None\<rparr>, c, b)
              else if repeat e then Inr (\<lparr>defaultPrevented = True, navCalled = None\<rparr>, c, b)
              else if k \<in> set nextKeys then called NavNext (next_nav v (c, b))
              else if k \<in> set prevKeys then called NavPrev (prev_nav v (c, b))
              else if k = ''Home'' then called (NavJump 0) (navTo v 0 (c, b))
              else if k = ''End''
                then called (NavJump (int (length (sections c)) - 1))
                       (navTo v (int (length (sections c)) - 1) (c, b))
              else Inr (\<lparr>defaultPrevented = True, navCalled = None\<rparr>, c, b)))"

subsection \<open>Callbacks, initialisation and the event loop\<close>

text \<open>
  \<open>run_callback\<close> holds the bodies of the arrow functions given to
  \<^verbatim>\<open>setTimeout\<close> and \<^verbatim>\<open>requestAnimationFrame\<close>. \<^verbatim>\<open>blur()\<close> moves the focus
  to the body element.
\<close>

definition blur_active :: "browser \<Rightarrow> browser" where
  "blur_active b =
     (case activeElement (page b) of
        None \<Rightarrow> b
      | Some el \<Rightarrow>
          b\<lparr>page := (page b)\<lparr>activeElement :=
                 Some \<lparr>tagName = ''BODY'', isContentEditable = False\<rparr>\<rparr>\<rparr>)"

definition run_callback :: "variant \<Rightarrow> callback \<Rightarrow> ctl \<times> browser \<Rightarrow> error + ctl \<times> browser" where
  "run_callback v cb w =
     (case cb of
        LockExpire \<Rightarrow> (case w of (c, b) \<Rightarrow> Inr (c\<lparr>locked := False\<rparr>, b))
      | WheelReset \<Rightarrow> (case w of (c, b) \<Rightarrow> Inr (c\<lparr>wheelAccum := Fin 0\<rparr>, b))
      | JumpDone \<Rightarrow> Inr (unlockInput (syncState w))
      | HashSync \<Rightarrow> Inr (syncState w)
      | ThemeStabilize \<Rightarrow>
          (case clearTimers w of (c1, b1) \<Rightarrow>
             (case unlockInput (c1\<lparr>wheelAccum := Fin 0\<rparr>, b1) of (c2, b2) \<Rightarrow>
                (let b3 = blur_active b2;
                     prevBehavior = html_scrollBehavior b3;
                     b4 = b3\<lparr>html_scrollBehavior := ''auto''\<rparr>
                 in Inr (c2, requestAnimationFrame (StabilizeFrame1 prevBehavior) b4))))
      | StabilizeFrame1 p \<Rightarrow>
          (case w of (c, b) \<Rightarrow> Inr (c, requestAnimationFrame (StabilizeFrame2 p) b))
      | StabilizeFrame2 p \<Rightarrow>
          (let w1 = syncState w
           in case jumpToIndex (nearestSectionIndex (fst w1) (snd w1)) Auto w1 of
                Inl e \<Rightarrow> Inl e
              | Inr (c2, b2) \<Rightarrow> Inr (c2, snd (setTimeout (StabilizeFinish p) 220 b2)))
      | StabilizeFinish p \<Rightarrow>
          (case w of (c, b) \<Rightarrow>
             Inr (unlockInput (syncState
               (c, b\<lparr>html_scrollBehavior := (if p = [] then [] else p)\<rparr>))))
      | SettleCheck sid \<Rightarrow> Inr (settle_check sid w)
      | ReInitFrame1 \<Rightarrow>
          (case w of (c, b) \<Rightarrow> Inr (c, requestAnimationFrame ReInitFrame2 b))
      | ReInitFrame2 \<Rightarrow> Inr (attachListeners (syncState w)))"

text \<open>The \<^verbatim>\<open>DOMContentLoaded\<close> handler of each file.\<close>

definition onLoaded :: "variant \<Rightarrow> ctl \<times> browser \<Rightarrow> error + ctl \<times> browser" where
  "onLoaded v w =
     (case v of
        ScriptJs \<Rightarrow> initTheme (initScroll w)
      | Part000 \<Rightarrow>
          (case attachListeners (syncState w) of (c, b) \<Rightarrow>
             (let b1 = addEventListener LHashChange b;
                  b2 = addEventListener LResize b1;
                  b3 = addEventListener LBodyObserver b2;
                  sw = themeSwitch b3
              in if sw = None then Inr (c, b3)
                 else (case addSwitchListener b3 of
                         Inl e \<Rightarrow> Inl e
                       | Inr b4 \<Rightarrow> Inr (c, b4)))))"

datatype event =
    EvDOMContentLoaded
  | EvWheel wheel_event
  | EvKeyDown key_event
  | EvResize
  | EvHashChange
  | EvSwitchChange bool
  | EvBodyClass
  | EvTimer nat
  | EvFrame
  | EvTick nat
  | EvPage page
  | EvDestroy

definition quiet :: "error + ctl \<times> browser \<Rightarrow> error + outcome \<times> ctl \<times> browser" where
  "quiet r = (case r of Inl e \<Rightarrow> Inl e | Inr w \<Rightarrow> Inr (untouched, w))"

fun run_frames :: "variant \<Rightarrow> callback list \<Rightarrow> ctl \<times> browser \<Rightarrow> error + ctl \<times> browser" where
  "run_frames v [] w = Inr w"
| "run_frames v (cb # cbs) w =
     (case run_callback v cb w of
        Inl e \<Rightarrow> Inl e
      | Inr w1 \<Rightarrow> run_frames v cbs w1)"

text \<open>
  One turn of the browser's event loop: an event reaches its handler only while the
  listener is registered, a timer runs once its delay has passed (and no earlier), a
  frame runs the callbacks requested before it. \<open>EvSwitchChange\<close> is the user setting
  the checkbox, \<open>EvBodyClass\<close> a change of the body's class attribute seen by the
  mutation observer of the unnamed file, \<open>EvTick\<close> the passing of time, \<open>EvPage\<close> any
  change of layout, scroll position, focus or overlay, and \<open>EvDestroy\<close> the call of
  \<^verbatim>\<open>destroy\<close> by a later instance of \<^verbatim>\<open>script.js\<close>. The
  \<^verbatim>\<open>DOMContentLoaded\<close> event is delivered once.
\<close>

definition step :: "variant \<Rightarrow> event \<Rightarrow> ctl \<times> browser \<Rightarrow> error + outcome \<times> ctl \<times> browser" where
  "step v ev w =
     (case w of (c, b) \<Rightarrow>
        (case ev of
           EvDOMContentLoaded \<Rightarrow>
             if LDOMContentLoaded \<in> set (listeners b)
             then quiet (onLoaded v (c, removeEventListener LDOMContentLoaded b))
             else Inr (untouched, c, b)
         | EvWheel e \<Rightarrow>
             if LWheel \<in> set (listeners b) then onWheel v e (c, b) else Inr (untouched, c, b)
         | EvKeyDown e \<Rightarrow>
             if LKeyDown \<in> set (listeners b) then onKeyDown v e (c, b) else Inr (untouched, c, b)
         | EvResize \<Rightarrow>
             if LResize \<in> set (listeners b) then Inr (untouched, syncState (c, b))
             else Inr (untouched, c, b)
         | EvHashChange \<Rightarrow>
             if LHashChange \<in> set (listeners b)
             then Inr (untouched, c,
                       snd (setTimeout HashSync (case v of ScriptJs \<Rightarrow> 250 | Part000 \<Rightarrow> 350) b))
             else Inr (untouched, c, b)
         | EvSwitchChange ch \<Rightarrow>
             (case themeSwitch b of
                None \<Rightarrow> Inr (untouched, c, b)
              | Some _ \<Rightarrow>
                  (let b1 = b\<lparr>themeSwitch := Some ch\<rparr>
                   in if LSwitchChange \<in> set (listeners b1)
                      then (case v of
                              ScriptJs \<Rightarrow> quiet (applyTheme (if ch then ''light'' else ''dark'') (c, b1))
                            | Part000 \<Rightarrow> Inr (untouched, hardReInit (c, b1)))
                      else Inr (untouched, c, b1)))
         | EvBodyClass \<Rightarrow>
             if LBodyObserver \<in> set (listeners b) then Inr (untouched, hardReInit (c, b))
             else Inr (untouched, c, b)
         | EvTimer t \<Rightarrow>
             (case timers b t of
                None \<Rightarrow> Inr (untouched, c, b)
              | Some (due, cb) \<Rightarrow>
                  if due \<le> now b then quiet (run_callback v cb (c, clearTimeout t b))
                  else Inr (untouched, c, b))
         | EvFrame \<Rightarrow> quiet (run_frames v (frames b) (c, b\<lparr>frames := []\<rparr>))
         | EvTick n \<Rightarrow> Inr (untouched, c, b\<lparr>now := now b + n\<rparr>)
         | EvPage p \<Rightarrow> Inr (untouched, c, b\<lparr>page := p\<rparr>)
         | EvDestroy \<Rightarrow>
             (case v of
                ScriptJs \<Rightarrow> Inr (untouched, destroy (c, b))
              | Part000 \<Rightarrow> Inr (untouched, c, b))))"

fun steps :: "variant \<Rightarrow> event list \<Rightarrow> ctl \<times> browser \<Rightarrow> error + outcome list \<times> ctl \<times> browser" where
  "steps v [] w = Inr ([], w)"
| "steps v (ev # evs) w =
     (case step v ev w of
        Inl e \<Rightarrow> Inl e
      | Inr (oc, w1) \<Rightarrow>
          (case steps v evs w1 of
             Inl e \<Rightarrow> Inl e
           | Inr (ocs, w2) \<Rightarrow> Inr (oc # ocs, w2)))"

text \<open>The state when the script has been evaluated and nothing has run yet.\<close>

definition init_ctl :: ctl where
  "init_ctl =
     \<lparr>sections = [], currentIndex = 0, locked = False, lockTimer = None, wheelAccum = Fin 0,
      wheelResetTimer = None, listenersAttached = False, themeStabilizeTimer = None,
      settleStopper = None\<rparr>"

subsection \<open>Wheel events in sequence\<close>

text \<open>
  \<open>onWheel_run\<close> hands the wheel events to \<^verbatim>\<open>onWheel\<close> one after the other. A
  navigation locks the input, and the events of the sequence are events that the
  handler processes: each arrives when the lock of the navigation before it has been
  released, so between two events the run clears the flag, as the callback of the
  safety timer does.
\<close>

fun onWheel_run ::
  "variant \<Rightarrow> wheel_event list \<Rightarrow> ctl \<times> browser \<Rightarrow> error + outcome list \<times> ctl \<times> browser" where
  "onWheel_run v [] w = Inr ([], w)"
| "onWheel_run v (e # es) w =
     (case onWheel v e w of
        Inl x \<Rightarrow> Inl x
      | Inr (oc, w1) \<Rightarrow>
          (case run_callback v LockExpire w1 of
             Inl x \<Rightarrow> Inl x
           | Inr w2 \<Rightarrow>
               (case onWheel_run v es w2 of
                  Inl x \<Rightarrow> Inl x
                | Inr (ocs, w3) \<Rightarrow> Inr (oc # ocs, w3))))"

text \<open>
  Debounced paging as the specification words it, with no reference to the code: the
  deltas are summed; an event whose sum stays below 60 in absolute value navigates
  nowhere; one whose sum reaches it navigates in the direction of the sum and resets the
  sum. Each entry is the accumulator after the event and the navigation, if any. The
  sum is the sum of JavaScript numbers.
\<close>

fun wheel_paging :: "number \<Rightarrow> number list \<Rightarrow> (number \<times> nav option) list" where
  "wheel_paging acc [] = []"
| "wheel_paging acc (d # ds) =
     (if num_lt (num_abs (num_add acc d)) (Fin 60)
      then (num_add acc d, None) # wheel_paging (num_add acc d) ds
      else (Fin 0, Some (if num_lt (Fin 0) (num_add acc d) then NavNext else NavPrev))
             # wheel_paging (Fin 0) ds)"

text \<open>
  The scroll request a jump of each file makes for a section: \<^verbatim>\<open>script.js\<close> lines
  140 to 144, the unnamed file line 145.
\<close>

definition scroll_request :: "variant \<Rightarrow> behavior \<Rightarrow> browser \<Rightarrow> elem \<Rightarrow> scroll_cmd" where
  "scroll_request v bh b sec =
     (case v of
        ScriptJs \<Rightarrow>
          ScrollTo (num_sub (num_add (scrollY (page b)) (rect_top (page b) sec)) (Fin 80)) bh
      | Part000 \<Rightarrow> ScrollIntoView sec)"

subsection \<open>A concrete page for the examples\<close>

text \<open>
  Three sections; the second one's top edge is 15 pixels below the header offset. The
  overlay element exists and is hidden, nothing has the focus, the theme switch exists.
\<close>

definition ex_page :: page where
  "ex_page =
     \<lparr>dom_sections = [10, 11, 12],
      rect_top = (\<lambda>e. if e = 10 then Fin (- 520) else if e = 11 then Fin 95 else Fin 710),
      scrollY = Fin 600,
      viewer = Some \<lparr>style_display = ''none''\<rparr>,
      activeElement = None\<rparr>"

definition ex_browser :: browser where
  "ex_browser =
     \<lparr>page = ex_page, themeSwitch = Some False, body_light = False,
      localStorage = Map.empty, html_scrollBehavior = [], now = 1000, nextTimer = 1,
      timers = Map.empty, frames = [], listeners = [LWheel, LKeyDown, LSwitchChange],
      scrolls = [], nextSettle = 0, settles = Map.empty\<rparr>"

definition ex_ctl :: ctl where
  "ex_ctl = init_ctl\<lparr>sections := [10, 11, 12], currentIndex := 1, listenersAttached := True\<rparr>"

definition ex_wheel :: "real \<Rightarrow> wheel_event" where
  "ex_wheel d = \<lparr>deltaY = Fin d, target = None\<rparr>"


definition ex_page_rounding :: page where
  "ex_page_rounding =
     \<lparr>dom_sections = [10, 11],
      rect_top = (\<lambda>e. if e = 10 then Fin (- 3602879701896397 / 2 ^ 55)
                       else Fin (5633017971422003 / 2 ^ 45)),
      scrollY = Fin 0,
      viewer = None,
      activeElement = None\<rparr>"

subsection \<open>Predicates used in the statements\<close>

text \<open>The current index points into the section list (vacuous for an empty list).\<close>

definition index_ok :: "ctl \<Rightarrow> bool" where
  "index_ok c \<longleftrightarrow>
     sections c = [] \<or> (0 \<le> currentIndex c \<and> currentIndex c \<le> int (length (sections c)) - 1)"

text \<open>
  The distance of a section's top edge from the header offset, as line 96 of
  \<^verbatim>\<open>script.js\<close> computes it.
\<close>

definition dist_to_header :: "(elem \<Rightarrow> number) \<Rightarrow> elem \<Rightarrow> number" where
  "dist_to_header tp sec = num_abs (num_sub (tp sec) (Fin 80))"

text \<open>
  The loop invariant of \<^verbatim>\<open>nearestSectionIndex\<close>: after the sections \<open>pre\<close>, no
  distance seen is below \<^verbatim>\<open>bestDist\<close>; and either nothing was below
  \<^verbatim>\<open>Infinity\<close> and the pair is the initial one, or the pair holds an index of
  \<open>pre\<close> and its distance, and every earlier distance that is a number is larger.
\<close>

definition best_of :: "(elem \<Rightarrow> number) \<Rightarrow> elem list \<Rightarrow> int \<times> number \<Rightarrow> bool" where
  "best_of tp pre acc \<longleftrightarrow>
     (\<forall>j < length pre. \<not> num_lt (dist_to_header tp (pre ! j)) (snd acc)) \<and>
     (acc = (0, PosInf) \<or>
      (\<exists>i. i < length pre \<and> acc = (int i, dist_to_header tp (pre ! i)) \<and>
           num_lt (snd acc) PosInf \<and>
           (\<forall>j < i. dist_to_header tp (pre ! j) \<noteq> NaN \<longrightarrow>
                    num_lt (snd acc) (dist_to_header tp (pre ! j)))))"

text \<open>
  What the claim asks of the index: no section is at a smaller distance, every earlier
  section is at a larger one (an earlier distance that is NaN compares with nothing),
  and the distance at the index is below \<^verbatim>\<open>Infinity\<close> when any distance is; when
  none is, the index is 0.
\<close>

definition first_nearest :: "(elem \<Rightarrow> number) \<Rightarrow> elem list \<Rightarrow> nat \<Rightarrow> bool" where
  "first_nearest tp secs i \<longleftrightarrow>
     i < length secs \<and>
     (\<forall>j < length secs. \<not> num_lt (dist_to_header tp (secs ! j)) (dist_to_header tp (secs ! i))) \<and>
     (\<forall>j < i. dist_to_header tp (secs ! j) \<noteq> NaN \<longrightarrow>
        num_lt (dist_to_header tp (secs ! i)) (dist_to_header tp (secs ! j))) \<and>
     (if \<exists>j < length secs. num_lt (dist_to_header tp (secs ! j)) PosInf
      then num_lt (dist_to_header tp (secs ! i)) PosInf else i = 0)"

text \<open>A fallible result is a value and satisfies a predicate.\<close>

definition returns :: "(ctl \<times> browser \<Rightarrow> bool) \<Rightarrow> error + ctl \<times> browser \<Rightarrow> bool" where
  "returns P r = (case r of Inl e \<Rightarrow> False | Inr w \<Rightarrow> P w)"

definition returns3 ::
  "(outcome \<Rightarrow> ctl \<times> browser \<Rightarrow> bool) \<Rightarrow> error + outcome \<times> ctl \<times> browser \<Rightarrow> bool" where
  "returns3 P r = (case r of Inl e \<Rightarrow> False | Inr x \<Rightarrow> P (fst x) (snd x))"

text \<open>
  The lock invariant: no pending timer has an identifier that \<^verbatim>\<open>setTimeout\<close> can
  still hand out, the identifier kept in \<^verbatim>\<open>themeStabilizeTimer\<close> is an old one and
  names at most a stabilisation timer, and while the controller is locked the timer kept
  in \<^verbatim>\<open>lockTimer\<close> is pending, will clear the flag, and is due within
  \<^verbatim>\<open>MAX_LOCK_MS\<close> of the present.
\<close>

definition lock_armed :: "variant \<Rightarrow> ctl \<times> browser \<Rightarrow> bool" where
  "lock_armed v w \<longleftrightarrow>
     (case w of (c, b) \<Rightarrow>
        (\<forall>t. timers b t \<noteq> None \<longrightarrow> t < nextTimer b) \<and>
        (\<forall>t. themeStabilizeTimer c = Some t \<longrightarrow>
           t < nextTimer b \<and> (\<forall>due cb. timers b t = Some (due, cb) \<longrightarrow> cb = ThemeStabilize)) \<and>
        (locked c \<longrightarrow>
           (\<exists>t due. lockTimer c = Some t \<and> timers b t = Some (due, LockExpire) \<and>
              due \<le> now b + MAX_LOCK_MS v)))"

text \<open>The same invariant over the values it reads, for the proofs.\<close>

definition clr :: "nat option \<Rightarrow> (nat \<rightharpoonup> nat \<times> callback) \<Rightarrow> (nat \<rightharpoonup> nat \<times> callback)" where
  "clr t tm = (case t of None \<Rightarrow> tm | Some i \<Rightarrow> tm(i := None))"

definition ids_ok :: "nat option \<Rightarrow> (nat \<rightharpoonup> nat \<times> callback) \<Rightarrow> nat \<Rightarrow> bool" where
  "ids_ok st tm nx \<longleftrightarrow>
     (\<forall>t. tm t \<noteq> None \<longrightarrow> t < nx) \<and>
     (\<forall>t. st = Some t \<longrightarrow> t < nx \<and> (\<forall>due cb. tm t = Some (due, cb) \<longrightarrow> cb = ThemeStabilize))"

definition armed :: "nat \<Rightarrow> bool \<Rightarrow> nat option \<Rightarrow> (nat \<rightharpoonup> nat \<times> callback) \<Rightarrow> nat \<Rightarrow> bool" where
  "armed mx lk lt tm nw \<longleftrightarrow>
     (lk \<longrightarrow>
        (case lt of
           None \<Rightarrow> False
         | Some t \<Rightarrow>
             (case tm t of
                None \<Rightarrow> False
              | Some x \<Rightarrow> snd x = LockExpire \<and> fst x \<le> nw + mx)))"

section \<open>Properties\<close>

subsection \<open>Reading results\<close>

lemma returnsI:
  "(case r of Inl e \<Rightarrow> False | Inr w \<Rightarrow> (case w of (c', b') \<Rightarrow> P c' b')) \<Longrightarrow>
   \<exists>c' b'. r = Inr (c', b') \<and> P c' b'"
  by (cases r) auto

lemma returns3I:
  "(case r of Inl e \<Rightarrow> False | Inr w \<Rightarrow> (case w of (oc, c', b') \<Rightarrow> P oc c' b')) \<Longrightarrow>
   \<exists>oc c' b'. r = Inr (oc, c', b') \<and> P oc c' b'"
  by (cases r) auto

subsection \<open>JavaScript numbers: evaluation and order\<close>

lemma bits_nonpos: "n \<le> 0 \<Longrightarrow> bits n = 0"
  by (simp add: bits.simps)

lemma bits_pos: "0 < n \<Longrightarrow> bits n = 1 + bits (n div 2)"
  by (subst bits.simps) simp

lemmas num_eval = round64_def round_mag_def ties_even_def ulp_exp_def expo_def pow2_def
  bits_nonpos bits_pos num_sub_def

lemma num_lt_irrefl [simp]: "\<not> num_lt a a"
  by (cases a) simp_all

lemma num_lt_trans: "num_lt a b \<Longrightarrow> num_lt b c \<Longrightarrow> num_lt a c"
  by (cases a; cases b; cases c) simp_all

lemma num_lt_PosInf: "num_lt a b \<Longrightarrow> num_lt a PosInf"
  by (cases a; cases b) simp_all

lemma num_lt_total: "a \<noteq> NaN \<Longrightarrow> b \<noteq> NaN \<Longrightarrow> num_lt a b \<or> a = b \<or> num_lt b a"
  by (cases a; cases b) auto

lemma num_not_lt_trans:
  "num_lt x bd \<Longrightarrow> \<not> num_lt d bd \<Longrightarrow> d \<noteq> NaN \<Longrightarrow> num_lt x d"
  by (cases x; cases bd; cases d) simp_all

subsection \<open>The nearest section\<close>

lemma best_of_snoc:
  assumes "best_of tp pre acc"
  shows "best_of tp (pre @ [x])
           (if num_lt (dist_to_header tp x) (snd acc)
            then (int (length pre), dist_to_header tp x) else acc)"
proof (cases "num_lt (dist_to_header tp x) (snd acc)")
  case True
  from assms have old: "\<forall>j < length pre. \<not> num_lt (dist_to_header tp (pre ! j)) (snd acc)"
    by (simp add: best_of_def)
  have a: "\<forall>j < length (pre @ [x]).
             \<not> num_lt (dist_to_header tp ((pre @ [x]) ! j)) (dist_to_header tp x)"
    using old True by (auto simp add: nth_append less_Suc_eq dest: num_lt_trans)
  have b: "\<forall>j < length pre. dist_to_header tp ((pre @ [x]) ! j) \<noteq> NaN \<longrightarrow>
             num_lt (dist_to_header tp x) (dist_to_header tp ((pre @ [x]) ! j))"
    using old True by (auto simp add: nth_append intro: num_not_lt_trans)
  have c: "num_lt (dist_to_header tp x) PosInf"
    using True by (rule num_lt_PosInf)
  from a b c True show ?thesis
    by (simp add: best_of_def)
next
  case False
  from assms have old: "\<forall>j < length pre. \<not> num_lt (dist_to_header tp (pre ! j)) (snd acc)"
    and alt: "acc = (0, PosInf) \<or>
      (\<exists>i. i < length pre \<and> acc = (int i, dist_to_header tp (pre ! i)) \<and>
           num_lt (snd acc) PosInf \<and>
           (\<forall>j < i. dist_to_header tp (pre ! j) \<noteq> NaN \<longrightarrow>
                    num_lt (snd acc) (dist_to_header tp (pre ! j))))"
    by (simp_all add: best_of_def)
  have a: "\<forall>j < length (pre @ [x]). \<not> num_lt (dist_to_header tp ((pre @ [x]) ! j)) (snd acc)"
    using old False by (auto simp add: nth_append less_Suc_eq)
  from alt have b: "acc = (0, PosInf) \<or>
      (\<exists>i. i < length (pre @ [x]) \<and> acc = (int i, dist_to_header tp ((pre @ [x]) ! i)) \<and>
           num_lt (snd acc) PosInf \<and>
           (\<forall>j < i. dist_to_header tp ((pre @ [x]) ! j) \<noteq> NaN \<longrightarrow>
                    num_lt (snd acc) (dist_to_header tp ((pre @ [x]) ! j))))"
  proof
    assume "acc = (0, PosInf)"
    then show ?thesis by simp
  next
    assume "\<exists>i. i < length pre \<and> acc = (int i, dist_to_header tp (pre ! i)) \<and>
           num_lt (snd acc) PosInf \<and>
           (\<forall>j < i. dist_to_header tp (pre ! j) \<noteq> NaN \<longrightarrow>
                    num_lt (snd acc) (dist_to_header tp (pre ! j)))"
    then obtain i where i: "i < length pre" and e: "acc = (int i, dist_to_header tp (pre ! i))"
      and f: "num_lt (snd acc) PosInf"
      and t: "\<forall>j < i. dist_to_header tp (pre ! j) \<noteq> NaN \<longrightarrow>
                    num_lt (snd acc) (dist_to_header tp (pre ! j))"
      by blast
    have "i < length (pre @ [x])" using i by simp
    moreover have "acc = (int i, dist_to_header tp ((pre @ [x]) ! i))"
      using i e by (simp add: nth_append)
    moreover have "\<forall>j < i. dist_to_header tp ((pre @ [x]) ! j) \<noteq> NaN \<longrightarrow>
                    num_lt (snd acc) (dist_to_header tp ((pre @ [x]) ! j))"
      using i t by (auto simp add: nth_append)
    ultimately show ?thesis using f by blast
  qed
  from a b False show ?thesis
    by (simp add: best_of_def)
qed

lemma nearest_loop_best_of:
  "best_of tp pre acc \<Longrightarrow>
   best_of tp (pre @ xs) (nearest_loop tp xs (int (length pre)) acc)"
proof (induction xs arbitrary: pre acc)
  case Nil
  then show ?case by simp
next
  case (Cons x xs)
  from best_of_snoc [OF Cons.prems, of x]
  have "best_of tp ((pre @ [x]) @ xs)
          (nearest_loop tp xs (int (length (pre @ [x])))
             (if num_lt (dist_to_header tp x) (snd acc)
              then (int (length pre), dist_to_header tp x) else acc))"
    by (rule Cons.IH)
  then show ?case
    by (auto simp add: dist_to_header_def HEADER_OFFSET_def Let_def add.commute split: if_splits)
qed

lemma nearestSectionIndex_nearest:
  assumes "sections c \<noteq> []"
  shows "\<exists>i. nearestSectionIndex c b = int i \<and> first_nearest (rect_top (page b)) (sections c) i"
proof -
  let ?tp = "rect_top (page b)"
  let ?r = "nearest_loop ?tp (sections c) 0 (0, PosInf)"
  have "best_of ?tp [] (0, PosInf)"
    by (simp add: best_of_def)
  from nearest_loop_best_of [OF this, of "sections c"]
  have inv: "best_of ?tp (sections c) ?r"
    by simp
  then have lo: "\<forall>j < length (sections c). \<not> num_lt (dist_to_header ?tp (sections c ! j)) (snd ?r)"
    by (simp add: best_of_def)
  from inv have "?r = (0, PosInf) \<or>
      (\<exists>i. i < length (sections c) \<and> ?r = (int i, dist_to_header ?tp (sections c ! i)) \<and>
           num_lt (snd ?r) PosInf \<and>
           (\<forall>j < i. dist_to_header ?tp (sections c ! j) \<noteq> NaN \<longrightarrow>
                    num_lt (snd ?r) (dist_to_header ?tp (sections c ! j))))"
    by (simp add: best_of_def)
  then show ?thesis
  proof
    assume d: "?r = (0, PosInf)"
    with lo have none: "\<forall>j < length (sections c). \<not> num_lt (dist_to_header ?tp (sections c ! j)) PosInf"
      by simp
    then have "\<forall>j < length (sections c).
        \<not> num_lt (dist_to_header ?tp (sections c ! j)) (dist_to_header ?tp (sections c ! 0))"
      by (auto dest: num_lt_PosInf)
    with none assms have "first_nearest ?tp (sections c) 0"
      by (simp add: first_nearest_def)
    moreover from d have "nearestSectionIndex c b = int 0"
      by (simp add: nearestSectionIndex_def)
    ultimately show ?thesis
      by blast
  next
    assume "\<exists>i. i < length (sections c) \<and> ?r = (int i, dist_to_header ?tp (sections c ! i)) \<and>
           num_lt (snd ?r) PosInf \<and>
           (\<forall>j < i. dist_to_header ?tp (sections c ! j) \<noteq> NaN \<longrightarrow>
                    num_lt (snd ?r) (dist_to_header ?tp (sections c ! j)))"
    then obtain i where i: "i < length (sections c)"
      and e: "?r = (int i, dist_to_header ?tp (sections c ! i))"
      and f: "num_lt (snd ?r) PosInf"
      and t: "\<forall>j < i. dist_to_header ?tp (sections c ! j) \<noteq> NaN \<longrightarrow>
                    num_lt (snd ?r) (dist_to_header ?tp (sections c ! j))"
      by blast
    from e have s: "snd ?r = dist_to_header ?tp (sections c ! i)"
      and n: "nearestSectionIndex c b = int i"
      by (simp_all add: nearestSectionIndex_def)
    from f i have "\<exists>j < length (sections c). num_lt (dist_to_header ?tp (sections c ! j)) PosInf"
      unfolding s by blast
    with i lo t f have "first_nearest ?tp (sections c) i"
      unfolding s by (simp add: first_nearest_def)
    with n show ?thesis
      by blast
  qed
qed

lemma first_nearest_less: "first_nearest tp secs i \<Longrightarrow> i < length secs"
  by (simp add: first_nearest_def)



subsection \<open>Theme\<close>

lemmas theme_defs = applyTheme_def initTheme_def set_checked_def addSwitchListener_def
  stabilizeAfterThemeSwitch_def setTimeout_def clearIfSet_def clearTimeout_def addEventListener_def

text \<open>
  Claim C3. Whatever is stored under \<^verbatim>\<open>themeMode\<close> (a string or nothing),
  \<^verbatim>\<open>initTheme\<close> returns, and it applies light mode exactly when the stored string is
  \<^verbatim>\<open>"light"\<close>: the body class, the value written back and the checkbox (when there is
  one) are those of \<^verbatim>\<open>applyTheme("light")\<close> in that case and of
  \<^verbatim>\<open>applyTheme("dark")\<close> in every other.
\<close>

theorem initTheme_light_iff_saved_light:
  "(\<exists>c' b'. initTheme (c, b) = Inr (c', b') \<and>
      body_light b' = (localStorage b THEME_KEY = Some ''light'') \<and>
      localStorage b' THEME_KEY =
        Some (if localStorage b THEME_KEY = Some ''light'' then ''light'' else ''dark'') \<and>
      themeSwitch b' =
        (case themeSwitch b of None \<Rightarrow> None
         | Some x \<Rightarrow> Some (localStorage b THEME_KEY = Some ''light''))) \<and>
   initTheme (c, b) =
     (case applyTheme (if localStorage b THEME_KEY = Some ''light'' then ''light'' else ''dark'') (c, b) of
        Inl e \<Rightarrow> Inl e
      | Inr (c1, b1) \<Rightarrow>
          Inr (c1, if themeSwitch b = None then b1 else addEventListener LSwitchChange b1))"
proof (intro conjI)
  show "\<exists>c' b'. initTheme (c, b) = Inr (c', b') \<and>
      body_light b' = (localStorage b THEME_KEY = Some ''light'') \<and>
      localStorage b' THEME_KEY =
        Some (if localStorage b THEME_KEY = Some ''light'' then ''light'' else ''dark'') \<and>
      themeSwitch b' =
        (case themeSwitch b of None \<Rightarrow> None
         | Some x \<Rightarrow> Some (localStorage b THEME_KEY = Some ''light''))"
    by (rule returnsI) (simp add: theme_defs Let_def split: option.splits)
  show "initTheme (c, b) =
     (case applyTheme (if localStorage b THEME_KEY = Some ''light'' then ''light'' else ''dark'') (c, b) of
        Inl e \<Rightarrow> Inl e
      | Inr (c1, b1) \<Rightarrow>
          Inr (c1, if themeSwitch b = None then b1 else addEventListener LSwitchChange b1))"
    by (cases "themeSwitch b"; cases "themeStabilizeTimer c") (simp_all add: theme_defs Let_def)
qed

theorem initTheme_light_iff_saved_light_witness:
  "(\<exists>c' b'. initTheme (ex_ctl, ex_browser\<lparr>localStorage := [THEME_KEY \<mapsto> ''light'']\<rparr>) = Inr (c', b') \<and>
      body_light b' \<and> localStorage b' THEME_KEY = Some ''light'' \<and> themeSwitch b' = Some True) \<and>
   (\<exists>c' b'. initTheme (ex_ctl, ex_browser\<lparr>localStorage := [THEME_KEY \<mapsto> ''Light'']\<rparr>) = Inr (c', b') \<and>
      \<not> body_light b' \<and> localStorage b' THEME_KEY = Some ''dark'' \<and> themeSwitch b' = Some False) \<and>
   (\<exists>c' b'. initTheme (ex_ctl, ex_browser) = Inr (c', b') \<and>
      \<not> body_light b' \<and> localStorage b' THEME_KEY = Some ''dark'' \<and> themeSwitch b' = Some False)"
proof -
  have sw: "themeSwitch (ex_browser\<lparr>localStorage := m\<rparr>) = Some False"
    "themeSwitch ex_browser = Some False" for m
    by (simp_all add: ex_browser_def)
  have s1: "localStorage (ex_browser\<lparr>localStorage := [THEME_KEY \<mapsto> ''light'']\<rparr>) THEME_KEY = Some ''light''"
    by simp
  have s2: "localStorage (ex_browser\<lparr>localStorage := [THEME_KEY \<mapsto> ''Light'']\<rparr>) THEME_KEY \<noteq> Some ''light''"
    by simp
  have s3: "localStorage ex_browser THEME_KEY \<noteq> Some ''light''"
    by (simp add: ex_browser_def)
  show ?thesis
    using initTheme_light_iff_saved_light [of ex_ctl "ex_browser\<lparr>localStorage := [THEME_KEY \<mapsto> ''light'']\<rparr>", THEN conjunct1]
      initTheme_light_iff_saved_light [of ex_ctl "ex_browser\<lparr>localStorage := [THEME_KEY \<mapsto> ''Light'']\<rparr>", THEN conjunct1]
      initTheme_light_iff_saved_light [of ex_ctl ex_browser, THEN conjunct1]
    unfolding sw s1 by (simp only: s2 s3 if_False if_True option.case simp_thms)
qed

text \<open>
  Claim C4. For every mode (in particular \<^verbatim>\<open>"dark"\<close> and \<^verbatim>\<open>"light"\<close>),
  \<^verbatim>\<open>applyTheme\<close> returns, stores the mode under \<^verbatim>\<open>themeMode\<close>, sets the body class
  \<^verbatim>\<open>light\<close> to \<open>mode = light\<close> and, when the checkbox exists, sets its checked state to
  the same value. Toggling the checkbox (its change event, with the listener of
  \<^verbatim>\<open>initTheme\<close> installed) therefore persists the new value and leaves the checkbox
  showing it.
\<close>

theorem applyTheme_persists_and_mirrors:
  "(\<exists>c' b'. applyTheme mode (c, b) = Inr (c', b') \<and>
      localStorage b' THEME_KEY = Some mode \<and>
      body_light b' = (mode = ''light'') \<and>
      themeSwitch b' = (case themeSwitch b of None \<Rightarrow> None | Some x \<Rightarrow> Some (mode = ''light''))) \<and>
   (themeSwitch b \<noteq> None \<and> LSwitchChange \<in> set (listeners b) \<longrightarrow>
      (\<exists>oc c' b'. step ScriptJs (EvSwitchChange ch) (c, b) = Inr (oc, c', b') \<and>
         localStorage b' THEME_KEY = Some (if ch then ''light'' else ''dark'') \<and>
         body_light b' = ch \<and> themeSwitch b' = Some ch))"
proof (intro conjI impI)
  show "\<exists>c' b'. applyTheme mode (c, b) = Inr (c', b') \<and>
      localStorage b' THEME_KEY = Some mode \<and>
      body_light b' = (mode = ''light'') \<and>
      themeSwitch b' = (case themeSwitch b of None \<Rightarrow> None | Some x \<Rightarrow> Some (mode = ''light''))"
    by (rule returnsI) (simp add: theme_defs Let_def split: option.splits)
next
  assume "themeSwitch b \<noteq> None \<and> LSwitchChange \<in> set (listeners b)"
  then show "\<exists>oc c' b'. step ScriptJs (EvSwitchChange ch) (c, b) = Inr (oc, c', b') \<and>
         localStorage b' THEME_KEY = Some (if ch then ''light'' else ''dark'') \<and>
         body_light b' = ch \<and> themeSwitch b' = Some ch"
    by (intro returns3I) (auto simp add: step_def quiet_def theme_defs Let_def split: option.splits)
qed

theorem applyTheme_persists_and_mirrors_witness:
  "(themeSwitch ex_browser \<noteq> None \<and> LSwitchChange \<in> set (listeners ex_browser)) \<and>
   (\<exists>c' b'. applyTheme ''light'' (ex_ctl, ex_browser) = Inr (c', b') \<and>
      localStorage b' ''themeMode'' = Some ''light'' \<and> body_light b' \<and> themeSwitch b' = Some True) \<and>
   (\<exists>oc c' b'. step ScriptJs (EvSwitchChange True) (ex_ctl, ex_browser) = Inr (oc, c', b') \<and>
      localStorage b' ''themeMode'' = Some ''light'' \<and> body_light b' \<and> themeSwitch b' = Some True)"
proof -
  have h: "themeSwitch ex_browser \<noteq> None \<and> LSwitchChange \<in> set (listeners ex_browser)"
    by (simp add: ex_browser_def)
  have sw: "themeSwitch ex_browser = Some False"
    by (simp add: ex_browser_def)
  show ?thesis
    using h applyTheme_persists_and_mirrors [of "''light''" ex_ctl ex_browser True]
    unfolding sw THEME_KEY_def by simp
qed

lemma initScroll_switch:
  "initScroll (c, b) = (c1, b1) \<Longrightarrow>
     themeSwitch b1 = themeSwitch b \<and>
     (LSwitchChange \<in> set (listeners b1) \<longleftrightarrow> LSwitchChange \<in> set (listeners b))"
  by (auto simp add: initScroll_def attachListeners_def syncState_def addEventListener_def Let_def
      split: if_splits)

lemma applyTheme_no_switch:
  assumes "themeSwitch b = None"
  shows "\<exists>c' b'. applyTheme mode (c, b) = Inr (c', b') \<and>
            body_light b' = (mode = ''light'') \<and>
            localStorage b' THEME_KEY = Some mode \<and>
            themeSwitch b' = None \<and>
            listeners b' = listeners b \<and>
            themeStabilizeTimer c' = Some (nextTimer b) \<and>
            timers b' (nextTimer b) = Some (now b + 50, ThemeStabilize) \<and>
            applyTheme mode (c, b\<lparr>themeSwitch := Some x\<rparr>) =
              Inr (c', b'\<lparr>themeSwitch := Some (mode = ''light'')\<rparr>)"
  using assms
  by (intro returnsI) (cases "themeStabilizeTimer c"; simp add: theme_defs Let_def)

lemma initTheme_no_switch:
  assumes "themeSwitch b = None"
  shows "initTheme (c, b) =
           applyTheme (if localStorage b THEME_KEY = Some ''light'' then ''light'' else ''dark'') (c, b)"
  using assms by (cases "themeStabilizeTimer c"; simp add: theme_defs Let_def)

lemma onLoaded_ScriptJs_no_switch:
  assumes "themeSwitch b = None"
  shows "\<exists>c' b'. onLoaded ScriptJs (c, b) = Inr (c', b') \<and>
           (LSwitchChange \<in> set (listeners b') \<longleftrightarrow> LSwitchChange \<in> set (listeners b))"
proof -
  obtain c1 b1 where i: "initScroll (c, b) = (c1, b1)"
    by (cases "initScroll (c, b)")
  from initScroll_switch [OF i] assms have sw: "themeSwitch b1 = None"
    and l: "LSwitchChange \<in> set (listeners b1) \<longleftrightarrow> LSwitchChange \<in> set (listeners b)"
    by simp_all
  let ?m = "if localStorage b1 THEME_KEY = Some ''light'' then ''light'' else ''dark''"
  from applyTheme_no_switch [OF sw, of ?m c1] obtain c' b'
    where a: "applyTheme ?m (c1, b1) = Inr (c', b')" and l2: "listeners b' = listeners b1"
    by blast
  have "onLoaded ScriptJs (c, b) = Inr (c', b')"
    by (simp add: onLoaded_def i initTheme_no_switch [OF sw] a)
  moreover have "LSwitchChange \<in> set (listeners b') \<longleftrightarrow> LSwitchChange \<in> set (listeners b)"
    using l l2 by simp
  ultimately show ?thesis
    by (intro exI conjI)
qed

lemma onLoaded_Part000_no_switch:
  assumes "themeSwitch b = None"
  shows "\<exists>c' b'. onLoaded Part000 (c, b) = Inr (c', b') \<and>
           (LSwitchChange \<in> set (listeners b') \<longleftrightarrow> LSwitchChange \<in> set (listeners b))"
  using assms
  by (intro returnsI)
    (auto simp add: onLoaded_def attachListeners_def syncState_def addEventListener_def Let_def)

text \<open>
  Claim C9. Without a \<^verbatim>\<open>#themeSwitch\<close> element, \<^verbatim>\<open>applyTheme\<close> and
  \<^verbatim>\<open>initTheme\<close> return without an error. \<^verbatim>\<open>applyTheme\<close> toggles the body class,
  stores the mode and arms the stabilisation timer; its result differs from the result
  with a checkbox only in the checkbox itself. \<^verbatim>\<open>initTheme\<close> is then
  \<^verbatim>\<open>applyTheme\<close> alone, with no listener installed, and so are the
  \<^verbatim>\<open>DOMContentLoaded\<close> handlers of both files: neither adds a change listener.
\<close>

theorem theme_switch_absent_is_skipped:
  assumes "themeSwitch b = None"
  shows "(\<exists>c' b'. applyTheme mode (c, b) = Inr (c', b') \<and>
            body_light b' = (mode = ''light'') \<and>
            localStorage b' THEME_KEY = Some mode \<and>
            themeSwitch b' = None \<and>
            listeners b' = listeners b \<and>
            themeStabilizeTimer c' = Some (nextTimer b) \<and>
            timers b' (nextTimer b) = Some (now b + 50, ThemeStabilize) \<and>
            applyTheme mode (c, b\<lparr>themeSwitch := Some x\<rparr>) =
              Inr (c', b'\<lparr>themeSwitch := Some (mode = ''light'')\<rparr>)) \<and>
         initTheme (c, b) =
           applyTheme (if localStorage b THEME_KEY = Some ''light'' then ''light'' else ''dark'') (c, b) \<and>
         (\<exists>c' b'. onLoaded ScriptJs (c, b) = Inr (c', b') \<and>
            (LSwitchChange \<in> set (listeners b') \<longleftrightarrow> LSwitchChange \<in> set (listeners b))) \<and>
         (\<exists>c' b'. onLoaded Part000 (c, b) = Inr (c', b') \<and>
            (LSwitchChange \<in> set (listeners b') \<longleftrightarrow> LSwitchChange \<in> set (listeners b)))"
  using applyTheme_no_switch [OF assms] initTheme_no_switch [OF assms]
    onLoaded_ScriptJs_no_switch [OF assms] onLoaded_Part000_no_switch [OF assms]
  by (intro conjI)

theorem theme_switch_absent_is_skipped_witness:
  "themeSwitch (ex_browser\<lparr>themeSwitch := None\<rparr>) = None \<and>
   (\<exists>c' b'. applyTheme ''light'' (ex_ctl, ex_browser\<lparr>themeSwitch := None\<rparr>) = Inr (c', b') \<and>
      body_light b' = (''light'' = ''light'') \<and>
      localStorage b' THEME_KEY = Some ''light'' \<and>
      themeSwitch b' = None \<and>
      listeners b' = listeners (ex_browser\<lparr>themeSwitch := None\<rparr>) \<and>
      themeStabilizeTimer c' = Some (nextTimer (ex_browser\<lparr>themeSwitch := None\<rparr>)) \<and>
      timers b' (nextTimer (ex_browser\<lparr>themeSwitch := None\<rparr>)) =
        Some (now (ex_browser\<lparr>themeSwitch := None\<rparr>) + 50, ThemeStabilize) \<and>
      applyTheme ''light'' (ex_ctl, ex_browser\<lparr>themeSwitch := None, themeSwitch := Some False\<rparr>) =
        Inr (c', b'\<lparr>themeSwitch := Some (''light'' = ''light'')\<rparr>)) \<and>
   (\<exists>c' b'. onLoaded ScriptJs (ex_ctl, ex_browser\<lparr>themeSwitch := None\<rparr>) = Inr (c', b') \<and>
      (LSwitchChange \<in> set (listeners b') \<longleftrightarrow>
       LSwitchChange \<in> set (listeners (ex_browser\<lparr>themeSwitch := None\<rparr>)))) \<and>
   (\<exists>c' b'. onLoaded Part000 (ex_ctl, ex_browser\<lparr>themeSwitch := None\<rparr>) = Inr (c', b') \<and>
      (LSwitchChange \<in> set (listeners b') \<longleftrightarrow>
       LSwitchChange \<in> set (listeners (ex_browser\<lparr>themeSwitch := None\<rparr>))))"
proof -
  have h: "themeSwitch (ex_browser\<lparr>themeSwitch := None\<rparr>) = None"
    by simp
  from theme_switch_absent_is_skipped [OF h, of "''light''" ex_ctl False] h
  show ?thesis
    by (elim conjE) (intro conjI, assumption+)
qed

subsection \<open>Empty section list; focus and overlay\<close>

text \<open>
  Claim C10. With an empty section list, \<^verbatim>\<open>jumpToIndex\<close>, \<^verbatim>\<open>scrollToIndex\<close>,
  \<^verbatim>\<open>next\<close> and \<^verbatim>\<open>prev\<close> (of either file) return the controller and the browser
  unchanged: no scroll request, no lock, no timer, the same current index. When the
  document has no section, \<^verbatim>\<open>syncState\<close> only stores the empty list: the current index,
  the lock and the browser are unchanged, and nothing at all changes when the stored list
  was empty already.
\<close>

theorem empty_sections_noop:
  "(sections c = [] \<longrightarrow>
      jumpToIndex idx bh (c, b) = Inr (c, b) \<and> scrollToIndex idx (c, b) = Inr (c, b) \<and>
      next_nav v (c, b) = Inr (c, b) \<and> prev_nav v (c, b) = Inr (c, b)) \<and>
   (getSections b = [] \<longrightarrow>
      syncState (c, b) = (c\<lparr>sections := []\<rparr>, b) \<and>
      (sections c = [] \<longrightarrow> syncState (c, b) = (c, b)))"
  by (cases v) (simp_all add: jumpToIndex_def scrollToIndex_def next_nav_def prev_nav_def navTo_def
      syncState_def Let_def)

theorem empty_sections_noop_witness:
  "sections init_ctl = [] \<and> getSections (ex_browser\<lparr>page := ex_page\<lparr>dom_sections := []\<rparr>\<rparr>) = [] \<and>
   jumpToIndex 5 Smooth (init_ctl, ex_browser) = Inr (init_ctl, ex_browser) \<and>
   scrollToIndex 5 (init_ctl, ex_browser) = Inr (init_ctl, ex_browser) \<and>
   next_nav Part000 (init_ctl, ex_browser) = Inr (init_ctl, ex_browser) \<and>
   prev_nav Part000 (init_ctl, ex_browser) = Inr (init_ctl, ex_browser) \<and>
   syncState (ex_ctl, ex_browser\<lparr>page := ex_page\<lparr>dom_sections := []\<rparr>\<rparr>) =
     (ex_ctl\<lparr>sections := []\<rparr>, ex_browser\<lparr>page := ex_page\<lparr>dom_sections := []\<rparr>\<rparr>) \<and>
   syncState (init_ctl, ex_browser\<lparr>page := ex_page\<lparr>dom_sections := []\<rparr>\<rparr>) =
     (init_ctl, ex_browser\<lparr>page := ex_page\<lparr>dom_sections := []\<rparr>\<rparr>)"
proof -
  have h1: "sections init_ctl = []"
    by (simp add: init_ctl_def)
  have h2: "getSections (ex_browser\<lparr>page := ex_page\<lparr>dom_sections := []\<rparr>\<rparr>) = []"
    by (simp add: getSections_def)
  from h1 h2
    empty_sections_noop [of init_ctl 5 Smooth ex_browser Part000]
    empty_sections_noop [of ex_ctl 5 Smooth "ex_browser\<lparr>page := ex_page\<lparr>dom_sections := []\<rparr>\<rparr>" Part000]
    empty_sections_noop [of init_ctl 5 Smooth "ex_browser\<lparr>page := ex_page\<lparr>dom_sections := []\<rparr>\<rparr>" Part000]
  show ?thesis
    by blast
qed

text \<open>
  Claim C7. While an \<^verbatim>\<open>input\<close>, a \<^verbatim>\<open>textarea\<close> or a content-editable element
  has the focus, or while \<^verbatim>\<open>#viewer\<close> has the inline style \<^verbatim>\<open>display: flex\<close>,
  \<^verbatim>\<open>onWheel\<close> and \<^verbatim>\<open>onKeyDown\<close> return with the controller and the browser
  unchanged, without calling a navigation function and without
  \<^verbatim>\<open>preventDefault\<close>; so does the event loop for a wheel or keydown event.
\<close>

theorem typing_or_overlay_suspends_handlers:
  assumes "(\<exists>el. activeElement (page b) = Some el \<and>
              (toLowerCase (tagName el) = ''input'' \<or> toLowerCase (tagName el) = ''textarea'' \<or>
               isContentEditable el)) \<or>
           (\<exists>vw. viewer (page b) = Some vw \<and> style_display vw = ''flex'')"
  shows "onWheel v we (c, b) = Inr (\<lparr>defaultPrevented = False, navCalled = None\<rparr>, c, b) \<and>
         onKeyDown v ke (c, b) = Inr (\<lparr>defaultPrevented = False, navCalled = None\<rparr>, c, b) \<and>
         step v (EvWheel we) (c, b) = Inr (\<lparr>defaultPrevented = False, navCalled = None\<rparr>, c, b) \<and>
         step v (EvKeyDown ke) (c, b) = Inr (\<lparr>defaultPrevented = False, navCalled = None\<rparr>, c, b)"
proof -
  from assms have "isTyping b \<or> isOverlayOpen b"
    by (auto simp add: isTyping_def isOverlayOpen_def Let_def)
  then show ?thesis
    by (auto simp add: onWheel_def onKeyDown_def step_def untouched_def)
qed

theorem typing_or_overlay_suspends_handlers_witness:
  "toLowerCase ''INPUT'' = ''input'' \<and>
   onWheel ScriptJs \<lparr>deltaY = Fin 100, target = None\<rparr>
     (ex_ctl, ex_browser\<lparr>page := ex_page\<lparr>activeElement :=
        Some \<lparr>tagName = ''INPUT'', isContentEditable = False\<rparr>\<rparr>\<rparr>) =
     Inr (\<lparr>defaultPrevented = False, navCalled = None\<rparr>, ex_ctl,
          ex_browser\<lparr>page := ex_page\<lparr>activeElement :=
            Some \<lparr>tagName = ''INPUT'', isContentEditable = False\<rparr>\<rparr>\<rparr>) \<and>
   onKeyDown Part000 \<lparr>key = ''ArrowDown'', repeat = False\<rparr>
     (ex_ctl, ex_browser\<lparr>page := ex_page\<lparr>viewer := Some \<lparr>style_display = ''flex''\<rparr>\<rparr>\<rparr>) =
     Inr (\<lparr>defaultPrevented = False, navCalled = None\<rparr>, ex_ctl,
          ex_browser\<lparr>page := ex_page\<lparr>viewer := Some \<lparr>style_display = ''flex''\<rparr>\<rparr>\<rparr>)"
proof -
  have lc: "toLowerCase ''INPUT'' = ''input''"
    by (simp add: toLowerCase_def lower_char_def)
  let ?b1 = "ex_browser\<lparr>page := ex_page\<lparr>activeElement :=
        Some \<lparr>tagName = ''INPUT'', isContentEditable = False\<rparr>\<rparr>\<rparr>"
  let ?b2 = "ex_browser\<lparr>page := ex_page\<lparr>viewer := Some \<lparr>style_display = ''flex''\<rparr>\<rparr>\<rparr>"
  have h1: "(\<exists>el. activeElement (page ?b1) = Some el \<and>
              (toLowerCase (tagName el) = ''input'' \<or> toLowerCase (tagName el) = ''textarea'' \<or>
               isContentEditable el)) \<or>
           (\<exists>vw. viewer (page ?b1) = Some vw \<and> style_display vw = ''flex'')"
    by (simp add: lc)
  have h2: "(\<exists>el. activeElement (page ?b2) = Some el \<and>
              (toLowerCase (tagName el) = ''input'' \<or> toLowerCase (tagName el) = ''textarea'' \<or>
               isContentEditable el)) \<or>
           (\<exists>vw. viewer (page ?b2) = Some vw \<and> style_display vw = ''flex'')"
    by simp
  from lc
    typing_or_overlay_suspends_handlers [OF h1, of ScriptJs "\<lparr>deltaY = Fin 100, target = None\<rparr>" ex_ctl]
    typing_or_overlay_suspends_handlers [OF h2, of Part000 _ ex_ctl "\<lparr>key = ''ArrowDown'', repeat = False\<rparr>"]
  show ?thesis
    by blast
qed

subsection \<open>Navigation and the index invariant\<close>

lemma returns_Inr [simp]: "returns P (Inr w) = P w"
  by (simp add: returns_def)

lemma returns3_Inr [simp]: "returns3 P (Inr (oc, w)) = P oc w"
  by (simp add: returns3_def)

lemma returnsD: "returns P r \<Longrightarrow> \<exists>c' b'. r = Inr (c', b') \<and> P (c', b')"
  by (cases r) (auto simp add: returns_def)

lemma returns3D: "returns3 P r \<Longrightarrow> \<exists>oc c' b'. r = Inr (oc, c', b') \<and> P oc (c', b')"
  by (cases r) (auto simp add: returns3_def)

lemma returns3_mono: "returns3 P r \<Longrightarrow> (\<And>oc w. P oc w \<Longrightarrow> Q oc w) \<Longrightarrow> returns3 Q r"
  by (cases r) (auto simp add: returns3_def)

lemma returns3_called: "returns P r \<Longrightarrow> returns3 (\<lambda>oc w. P w) (called n r)"
  by (cases r) (auto simp add: returns_def called_def)

lemma returns3_quiet: "returns P r \<Longrightarrow> returns3 (\<lambda>oc w. P w) (quiet r)"
  by (cases r) (auto simp add: returns_def quiet_def)

lemma nearest_in_range:
  "sections c \<noteq> [] \<Longrightarrow>
   0 \<le> nearestSectionIndex c b \<and> nearestSectionIndex c b \<le> int (length (sections c)) - 1"
  using nearestSectionIndex_nearest [of c b] by (auto dest: first_nearest_less)

lemma clamp_in_range:
  "0 \<le> hi \<Longrightarrow> 0 \<le> clamp n 0 hi \<and> clamp n 0 hi \<le> hi"
  by (simp add: clamp_def)

lemma nth_js_clamp:
  "xs \<noteq> [] \<Longrightarrow>
   nth_js xs (clamp n 0 (int (length xs) - 1)) = Some (xs ! nat (clamp n 0 (int (length xs) - 1)))"
  using clamp_in_range [of "int (length xs) - 1" n]
  by (cases xs) (simp_all add: nth_js_def)

lemmas timer_defs = setTimeout_def clearIfSet_def clearTimeout_def

lemma index_ok_syncState: "index_ok (fst (syncState (c, b)))"
  using nearest_in_range [of "c\<lparr>sections := getSections b\<rparr>" b]
  by (simp add: syncState_def index_ok_def Let_def)

lemma clamp_cases:
  "0 \<le> hi \<Longrightarrow> clamp idx 0 hi = (if idx < 0 then 0 else if hi < idx then hi else idx)"
  by (simp add: clamp_def)

lemma jumpToIndex_nonempty:
  assumes "sections c \<noteq> []"
  shows "\<exists>c' b'. jumpToIndex idx bh (c, b) = Inr (c', b') \<and> sections c' = sections c \<and>
           currentIndex c' = clamp idx 0 (int (length (sections c)) - 1) \<and> locked c' \<and>
           scrolls b' = scrolls b @
             [scroll_request ScriptJs bh b
                (sections c ! nat (clamp idx 0 (int (length (sections c)) - 1)))]"
  using assms nth_js_clamp [OF assms, of idx]
  by (intro returnsI) (simp add: jumpToIndex_def lockInput_def scrollTo_def timer_defs Let_def
      scroll_request_def HEADER_OFFSET_def split: option.splits)

lemma scrollToIndex_nonempty:
  assumes "sections c \<noteq> []"
  shows "\<exists>c' b'. scrollToIndex idx (c, b) = Inr (c', b') \<and> sections c' = sections c \<and>
           currentIndex c' = clamp idx 0 (int (length (sections c)) - 1) \<and> locked c' \<and>
           scrolls b' = scrolls b @
             [scroll_request Part000 Smooth b
                (sections c ! nat (clamp idx 0 (int (length (sections c)) - 1)))]"
  using assms nth_js_clamp [OF assms, of idx]
  by (intro returnsI) (simp add: scrollToIndex_def lockInput_def scrollIntoView_def waitForSettle_def
      timer_defs Let_def scroll_request_def split: option.splits)

lemma navTo_nonempty:
  assumes "sections c \<noteq> []"
  shows "\<exists>c' b'. navTo v idx (c, b) = Inr (c', b') \<and> sections c' = sections c \<and>
           currentIndex c' = clamp idx 0 (int (length (sections c)) - 1) \<and> locked c' \<and>
           scrolls b' = scrolls b @
             [scroll_request v Smooth b
                (sections c ! nat (clamp idx 0 (int (length (sections c)) - 1)))]"
  using jumpToIndex_nonempty [OF assms, of idx Smooth b] scrollToIndex_nonempty [OF assms, of idx b]
  by (cases v) (simp_all add: navTo_def)

lemma navTo_empty: "sections c = [] \<Longrightarrow> navTo v idx (c, b) = Inr (c, b)"
  by (cases v) (simp_all add: navTo_def jumpToIndex_def scrollToIndex_def)

lemma index_ok_upd [simp]:
  "index_ok (locked_update f1 c) = index_ok c"
  "index_ok (lockTimer_update f2 c) = index_ok c"
  "index_ok (wheelAccum_update f3 c) = index_ok c"
  "index_ok (wheelResetTimer_update f4 c) = index_ok c"
  "index_ok (listenersAttached_update f5 c) = index_ok c"
  "index_ok (themeStabilizeTimer_update f6 c) = index_ok c"
  "index_ok (settleStopper_update f7 c) = index_ok c"
  by (simp_all add: index_ok_def)

lemma index_ok_kept:
  "index_ok (fst (lockInput v w)) = index_ok (fst w)"
  "index_ok (fst (unlockInput w)) = index_ok (fst w)"
  "index_ok (fst (attachListeners w)) = index_ok (fst w)"
  "index_ok (fst (detachListeners w)) = index_ok (fst w)"
  "index_ok (fst (clearTimers w)) = index_ok (fst w)"
  "index_ok (fst (clearAllTimers w)) = index_ok (fst w)"
  "index_ok (fst (stabilizeAfterThemeSwitch w)) = index_ok (fst w)"
  "index_ok (fst (waitForSettle w)) = index_ok (fst w)"
  by (cases w; simp add: lockInput_def unlockInput_def attachListeners_def detachListeners_def
      clearTimers_def clearAllTimers_def stabilizeAfterThemeSwitch_def waitForSettle_def
      index_ok_def timer_defs Let_def split: option.splits)+

lemma index_ok_syncState_w: "index_ok (fst (syncState w))"
  by (cases w) (simp add: index_ok_syncState)

lemma index_ok_hardReInit: "index_ok (fst (hardReInit w)) = index_ok (fst w)"
proof -
  have "index_ok (fst (hardReInit w)) = index_ok (fst (clearAllTimers (detachListeners w)))"
    by (cases "clearAllTimers (detachListeners w)") (simp add: hardReInit_def index_ok_def)
  then show ?thesis
    by (simp add: index_ok_kept)
qed

lemma index_ok_initScroll: "index_ok (fst (initScroll w))"
proof -
  have "index_ok (fst (initScroll w)) = index_ok (fst (attachListeners (syncState w)))"
    by (cases "attachListeners (syncState w)") (simp add: initScroll_def)
  then show ?thesis
    by (simp add: index_ok_kept index_ok_syncState_w)
qed

lemma index_ok_destroy: "index_ok (fst (destroy w)) = index_ok (fst w)"
proof -
  have "index_ok (fst (destroy w)) = index_ok (fst (clearTimers (detachListeners w)))"
    by (cases "clearTimers (detachListeners w)") (simp add: destroy_def index_ok_def Let_def)
  then show ?thesis
    by (simp add: index_ok_kept)
qed

lemma index_ok_settle_check: "index_ok (fst w) \<Longrightarrow> index_ok (fst (settle_check sid w))"
proof (cases w)
  case (Pair c b)
  assume ok: "index_ok (fst w)"
  have n: "sections c \<noteq> [] \<Longrightarrow>
      0 \<le> nearestSectionIndex c b1 \<and> nearestSectionIndex c b1 \<le> int (length (sections c)) - 1" for b1
    by (rule nearest_in_range)
  show ?thesis
    using ok Pair n
    by (auto simp add: settle_check_def unlockInput_def Let_def index_ok_def split: option.splits)
qed

lemma applyTheme_index_ok:
  "\<exists>c' b'. applyTheme mode (c, b) = Inr (c', b') \<and> index_ok c' = index_ok c"
  by (intro returnsI)
    (simp add: applyTheme_def set_checked_def stabilizeAfterThemeSwitch_def timer_defs index_ok_def
      Let_def split: option.splits)

lemma initTheme_index_ok:
  "\<exists>c' b'. initTheme (c, b) = Inr (c', b') \<and> index_ok c' = index_ok c"
  by (intro returnsI)
    (simp add: initTheme_def applyTheme_def set_checked_def addSwitchListener_def
      stabilizeAfterThemeSwitch_def timer_defs index_ok_def Let_def split: option.splits)


lemma navTo_returns_index_ok: "returns (\<lambda>w'. index_ok (fst w')) (navTo v idx w)"
proof (cases w)
  case (Pair c b)
  show ?thesis
  proof (cases "sections c = []")
    case True
    with Pair show ?thesis by (simp add: navTo_empty index_ok_def)
  next
    case False
    from navTo_nonempty [OF False, of v idx b] obtain c' b'
      where r: "navTo v idx (c, b) = Inr (c', b')" and s: "sections c' = sections c"
        and i: "currentIndex c' = clamp idx 0 (int (length (sections c)) - 1)"
      by blast
    from False have "0 \<le> int (length (sections c)) - 1"
      by (cases "sections c") simp_all
    from clamp_in_range [OF this, of idx] s i have "index_ok c'"
      by (simp add: index_ok_def)
    with r Pair show ?thesis by simp
  qed
qed

lemma jumpToIndex_returns_index_ok: "returns (\<lambda>w'. index_ok (fst w')) (jumpToIndex idx Auto w)"
proof (cases w)
  case (Pair c b)
  show ?thesis
  proof (cases "sections c = []")
    case True
    with Pair show ?thesis by (simp add: jumpToIndex_def index_ok_def)
  next
    case False
    from jumpToIndex_nonempty [OF False, of idx Auto b] obtain c' b'
      where r: "jumpToIndex idx Auto (c, b) = Inr (c', b')" and s: "sections c' = sections c"
        and i: "currentIndex c' = clamp idx 0 (int (length (sections c)) - 1)"
      by blast
    from False have "0 \<le> int (length (sections c)) - 1"
      by (cases "sections c") simp_all
    from clamp_in_range [OF this, of idx] s i have "index_ok c'"
      by (simp add: index_ok_def)
    with r Pair show ?thesis by simp
  qed
qed

lemma run_callback_index_ok:
  "returns (\<lambda>w'. index_ok (fst w) \<longrightarrow> index_ok (fst w')) (run_callback v cb w)"
proof (cases cb)
  case LockExpire
  then show ?thesis by (cases w) (simp add: run_callback_def index_ok_def)
next
  case WheelReset
  then show ?thesis by (cases w) (simp add: run_callback_def index_ok_def)
next
  case JumpDone
  then show ?thesis by (simp add: run_callback_def index_ok_kept index_ok_syncState_w)
next
  case HashSync
  then show ?thesis by (simp add: run_callback_def index_ok_syncState_w)
next
  case ThemeStabilize
  then show ?thesis
    by (cases w) (simp add: run_callback_def clearTimers_def unlockInput_def Let_def index_ok_def)
next
  case (StabilizeFrame1 p)
  then show ?thesis by (cases w) (simp add: run_callback_def)
next
  case (StabilizeFrame2 p)
  have "returns (\<lambda>w'. index_ok (fst w'))
          (jumpToIndex (nearestSectionIndex (fst (syncState w)) (snd (syncState w))) Auto (syncState w))"
    by (rule jumpToIndex_returns_index_ok)
  with StabilizeFrame2 show ?thesis
    by (auto simp add: run_callback_def Let_def returns_def split: sum.splits)
next
  case (StabilizeFinish p)
  then show ?thesis
    by (cases w) (simp add: run_callback_def index_ok_kept index_ok_syncState_w)
next
  case (SettleCheck sid)
  then show ?thesis by (simp add: run_callback_def index_ok_settle_check)
next
  case ReInitFrame1
  then show ?thesis by (cases w) (simp add: run_callback_def)
next
  case ReInitFrame2
  then show ?thesis by (simp add: run_callback_def index_ok_kept index_ok_syncState_w)
qed

lemma run_frames_index_ok:
  "returns (\<lambda>w'. index_ok (fst w) \<longrightarrow> index_ok (fst w')) (run_frames v cbs w)"
proof (induction cbs arbitrary: w)
  case Nil
  then show ?case by simp
next
  case (Cons cb cbs)
  from run_callback_index_ok [of w v cb] obtain c1 b1
    where r: "run_callback v cb w = Inr (c1, b1)"
      and k: "index_ok (fst w) \<longrightarrow> index_ok (fst (c1, b1))"
    by (auto dest: returnsD)
  from Cons.IH [of "(c1, b1)"] k r show ?case
    by (auto simp add: returns_def split: sum.splits)
qed


lemma navTo_frame:
  "returns (\<lambda>w'. wheelAccum (fst w') = wheelAccum (fst w) \<and>
                 wheelResetTimer (fst w') = wheelResetTimer (fst w) \<and>
                 page (snd w') = page (snd w) \<and>
                 listeners (snd w') = listeners (snd w) \<and>
                 (locked (fst w') \<longleftrightarrow> locked (fst w) \<or> sections (fst w) \<noteq> []))
     (navTo v idx w)"
proof (cases w)
  case (Pair c b)
  show ?thesis
  proof (cases "sections c = []")
    case True
    with Pair show ?thesis by (simp add: navTo_empty)
  next
    case False
    with Pair nth_js_clamp [OF False, of idx] show ?thesis
      by (cases v)
        (simp_all add: navTo_def jumpToIndex_def scrollToIndex_def lockInput_def scrollTo_def
          scrollIntoView_def waitForSettle_def timer_defs Let_def split: option.splits)
  qed
qed

lemma onWheel_index_ok:
  "returns3 (\<lambda>oc w'. index_ok (fst w) \<longrightarrow> index_ok (fst w')) (onWheel v e w)"
proof (cases w)
  case (Pair c b)
  have n: "returns3 (\<lambda>oc w'. index_ok (fst w')) (called k (navTo v idx x))" for k idx x
    by (rule returns3_called) (rule navTo_returns_index_ok)
  have m: "returns3 (\<lambda>oc w'. index_ok c \<longrightarrow> index_ok (fst w')) (called k (navTo v idx x))"
    for k idx x
    by (rule returns3_mono [OF n]) simp
  show ?thesis
    unfolding Pair onWheel_def next_nav_def prev_nav_def
    using m by (simp add: Let_def setTimeout_def)
qed

lemma onKeyDown_index_ok:
  "returns3 (\<lambda>oc w'. index_ok (fst w) \<longrightarrow> index_ok (fst w')) (onKeyDown v e w)"
proof (cases w)
  case (Pair c b)
  have n: "returns3 (\<lambda>oc w'. index_ok (fst w')) (called k (navTo v idx x))" for k idx x
    by (rule returns3_called) (rule navTo_returns_index_ok)
  have m: "returns3 (\<lambda>oc w'. index_ok c \<longrightarrow> index_ok (fst w')) (called k (navTo v idx x))"
    for k idx x
    by (rule returns3_mono [OF n]) simp
  show ?thesis
    unfolding Pair onKeyDown_def next_nav_def prev_nav_def
    using m by (simp add: Let_def)
qed

lemma onLoaded_index_ok:
  "returns (\<lambda>w'. index_ok (fst w')) (onLoaded v w)"
proof (cases v)
  case ScriptJs
  obtain c1 b1 where i: "initScroll w = (c1, b1)"
    by (cases "initScroll w")
  with index_ok_initScroll [of w] have "index_ok c1" by simp
  with initTheme_index_ok [of c1 b1] i ScriptJs show ?thesis
    by (auto simp add: onLoaded_def)
next
  case Part000
  obtain c1 b1 where i: "attachListeners (syncState w) = (c1, b1)"
    by (cases "attachListeners (syncState w)")
  have "index_ok (fst (attachListeners (syncState w)))"
    by (simp add: index_ok_kept index_ok_syncState_w)
  with i have "index_ok c1" by simp
  with i Part000 show ?thesis
    by (simp add: onLoaded_def addSwitchListener_def Let_def split: option.splits)
qed

lemma step_index_ok:
  "returns3 (\<lambda>oc w'. index_ok (fst w) \<longrightarrow> index_ok (fst w')) (step v ev w)"
proof (cases w)
  case (Pair c b)
  show ?thesis
  proof (cases ev)
    case EvDOMContentLoaded
    have "returns3 (\<lambda>oc w'. index_ok (fst w'))
            (quiet (onLoaded v (c, removeEventListener LDOMContentLoaded b)))"
      by (rule returns3_quiet) (rule onLoaded_index_ok)
    then have "returns3 (\<lambda>oc w'. index_ok c \<longrightarrow> index_ok (fst w'))
            (quiet (onLoaded v (c, removeEventListener LDOMContentLoaded b)))"
      by (rule returns3_mono) simp
    with Pair EvDOMContentLoaded show ?thesis
      by (simp add: step_def)
  next
    case (EvWheel e)
    with Pair onWheel_index_ok [of "(c, b)" v e] show ?thesis
      by (simp add: step_def)
  next
    case (EvKeyDown e)
    with Pair onKeyDown_index_ok [of "(c, b)" v e] show ?thesis
      by (simp add: step_def)
  next
    case EvResize
    with Pair index_ok_syncState [of c b] show ?thesis
      by (cases "syncState (c, b)") (simp add: step_def)
  next
    case EvHashChange
    with Pair show ?thesis
      by (simp add: step_def)
  next
    case (EvSwitchChange ch)
    have a: "returns3 (\<lambda>oc w'. index_ok c \<longrightarrow> index_ok (fst w')) (quiet (applyTheme m (c, b1)))"
      for m b1
      using applyTheme_index_ok [of m c b1] by (auto simp add: quiet_def)
    have h: "index_ok c \<longrightarrow> index_ok (fst (hardReInit (c, b1)))" for b1
      by (simp add: index_ok_hardReInit)
    from Pair EvSwitchChange a h show ?thesis
      by (cases v; cases "themeSwitch b")
        (auto simp add: step_def Let_def split: prod.splits)
  next
    case EvBodyClass
    have h: "index_ok c \<longrightarrow> index_ok (fst (hardReInit (c, b)))"
      by (simp add: index_ok_hardReInit)
    with Pair EvBodyClass show ?thesis
      by (cases "hardReInit (c, b)") (simp add: step_def)
  next
    case (EvTimer t)
    have "returns3 (\<lambda>oc w'. index_ok (fst (c, b1)) \<longrightarrow> index_ok (fst w'))
            (quiet (run_callback v cb (c, b1)))" for cb b1
      by (rule returns3_quiet) (rule run_callback_index_ok)
    with Pair EvTimer show ?thesis
      by (simp add: step_def split: option.splits prod.splits)
  next
    case EvFrame
    have "returns3 (\<lambda>oc w'. index_ok (fst (c, b1)) \<longrightarrow> index_ok (fst w'))
            (quiet (run_frames v cbs (c, b1)))" for cbs b1
      by (rule returns3_quiet) (rule run_frames_index_ok)
    with Pair EvFrame show ?thesis
      by (simp add: step_def)
  next
    case (EvTick n)
    with Pair show ?thesis by (simp add: step_def)
  next
    case (EvPage p)
    with Pair show ?thesis by (simp add: step_def)
  next
    case EvDestroy
    have "index_ok c \<longrightarrow> index_ok (fst (destroy (c, b)))"
      by (simp add: index_ok_destroy)
    with Pair EvDestroy show ?thesis
      by (cases v; cases "destroy (c, b)") (simp_all add: step_def)
  qed
qed


lemma steps_index_ok:
  "\<exists>ocs c' b'. steps v evs (c, b) = Inr (ocs, c', b') \<and> length ocs = length evs \<and>
     (index_ok c \<longrightarrow> index_ok c')"
proof (induction evs arbitrary: c b)
  case Nil
  show ?case by simp
next
  case (Cons ev evs)
  from returns3D [OF step_index_ok [of "(c, b)" v ev]] obtain oc c1 b1
    where s: "step v ev (c, b) = Inr (oc, c1, b1)" and k: "index_ok c \<longrightarrow> index_ok c1"
    by auto
  from Cons.IH [of c1 b1] obtain ocs c' b'
    where r: "steps v evs (c1, b1) = Inr (ocs, c', b')" and l: "length ocs = length evs"
      and k2: "index_ok c1 \<longrightarrow> index_ok c'"
    by blast
  have "steps v (ev # evs) (c, b) = Inr (oc # ocs, c', b')"
    by (simp add: s r)
  moreover have "length (oc # ocs) = length (ev # evs)"
    by (simp add: l)
  moreover have "index_ok c \<longrightarrow> index_ok c'"
    using k k2 by blast
  ultimately show ?case
    by (intro exI conjI)
qed

lemma clamp_low: "0 \<le> hi \<Longrightarrow> n \<le> 0 \<Longrightarrow> clamp n 0 hi = 0"
  by (simp add: clamp_def)

lemma clamp_high: "0 \<le> hi \<Longrightarrow> hi \<le> n \<Longrightarrow> clamp n 0 hi = hi"
  by (simp add: clamp_def)

text \<open>
  Claim C1. On a non-empty section list, \<^verbatim>\<open>jumpToIndex\<close> (\<^verbatim>\<open>script.js\<close>) and
  \<^verbatim>\<open>scrollToIndex\<close> (the unnamed variant) return without an error and set the current
  index to \<open>clamp idx 0 (length - 1)\<close>: the target itself when it is an index of
  the list, 0 when it is negative, and the last index when it lies beyond the list. The
  new index lies in \<open>[0, length - 1]\<close>, the input is locked, and the one scroll request
  made is for the section at that index. So \<^verbatim>\<open>next\<close> moves one section forward and
  stays on the last section at or past the last index, \<^verbatim>\<open>prev\<close> moves one section
  back and stays on the first at or before index 0, and the targets of Home and End are
  the first and the last section. Every sequence of events of the event loop runs
  without an error and keeps the current index inside the section list; it is inside
  initially.
\<close>

theorem jump_clamps_index:
  "(sections c \<noteq> [] \<longrightarrow>
      (\<exists>c' b'. jumpToIndex idx bh (c, b) = Inr (c', b') \<and> sections c' = sections c \<and>
         currentIndex c' = clamp idx 0 (int (length (sections c)) - 1) \<and>
         currentIndex c' =
           (if idx < 0 then 0
            else if int (length (sections c)) - 1 < idx then int (length (sections c)) - 1
            else idx) \<and>
         0 \<le> currentIndex c' \<and> currentIndex c' \<le> int (length (sections c)) - 1 \<and>
         locked c' \<and>
         scrolls b' = scrolls b @
           [ScrollTo (num_sub (num_add (scrollY (page b))
                        (rect_top (page b) (sections c ! nat (currentIndex c')))) (Fin 80)) bh]) \<and>
      (\<exists>c' b'. scrollToIndex idx (c, b) = Inr (c', b') \<and> sections c' = sections c \<and>
         currentIndex c' = clamp idx 0 (int (length (sections c)) - 1) \<and>
         currentIndex c' =
           (if idx < 0 then 0
            else if int (length (sections c)) - 1 < idx then int (length (sections c)) - 1
            else idx) \<and>
         0 \<le> currentIndex c' \<and> currentIndex c' \<le> int (length (sections c)) - 1 \<and>
         locked c' \<and>
         scrolls b' = scrolls b @ [ScrollIntoView (sections c ! nat (currentIndex c'))]) \<and>
      (\<exists>c' b'. next_nav v (c, b) = Inr (c', b') \<and>
         currentIndex c' =
           (if currentIndex c + 1 < 0 then 0
            else if int (length (sections c)) - 1 < currentIndex c + 1
              then int (length (sections c)) - 1
            else currentIndex c + 1)) \<and>
      (\<exists>c' b'. prev_nav v (c, b) = Inr (c', b') \<and>
         currentIndex c' =
           (if currentIndex c - 1 < 0 then 0
            else if int (length (sections c)) - 1 < currentIndex c - 1
              then int (length (sections c)) - 1
            else currentIndex c - 1)) \<and>
      (int (length (sections c)) - 1 \<le> currentIndex c \<longrightarrow>
         (\<exists>c' b'. next_nav v (c, b) = Inr (c', b') \<and>
            currentIndex c' = int (length (sections c)) - 1)) \<and>
      (currentIndex c \<le> 0 \<longrightarrow>
         (\<exists>c' b'. prev_nav v (c, b) = Inr (c', b') \<and> currentIndex c' = 0)) \<and>
      (\<exists>c' b'. navTo v 0 (c, b) = Inr (c', b') \<and> currentIndex c' = 0) \<and>
      (\<exists>c' b'. navTo v (int (length (sections c)) - 1) (c, b) = Inr (c', b') \<and>
         currentIndex c' = int (length (sections c)) - 1)) \<and>
   (\<exists>ocs c' b'. steps v evs (c, b) = Inr (ocs, c', b') \<and> (index_ok c \<longrightarrow> index_ok c')) \<and>
   index_ok init_ctl"
proof (intro conjI impI)
  assume ne: "sections c \<noteq> []"
  then have hi: "0 \<le> int (length (sections c)) - 1"
    by (cases "sections c") simp_all
  note r = clamp_in_range [OF hi]
  note k = clamp_cases [OF hi]
  from jumpToIndex_nonempty [OF ne, of idx bh b] obtain c1 b1
    where j: "jumpToIndex idx bh (c, b) = Inr (c1, b1)" "sections c1 = sections c"
      "currentIndex c1 = clamp idx 0 (int (length (sections c)) - 1)" "locked c1"
      "scrolls b1 = scrolls b @
         [scroll_request ScriptJs bh b
            (sections c ! nat (clamp idx 0 (int (length (sections c)) - 1)))]"
    by blast
  have "scrolls b1 = scrolls b @
           [ScrollTo (num_sub (num_add (scrollY (page b))
                        (rect_top (page b) (sections c ! nat (currentIndex c1)))) (Fin 80)) bh]"
    using j(3,5) by (simp add: scroll_request_def)
  with j r [of idx] k [of idx]
  show "\<exists>c' b'. jumpToIndex idx bh (c, b) = Inr (c', b') \<and> sections c' = sections c \<and>
         currentIndex c' = clamp idx 0 (int (length (sections c)) - 1) \<and>
         currentIndex c' =
           (if idx < 0 then 0
            else if int (length (sections c)) - 1 < idx then int (length (sections c)) - 1
            else idx) \<and>
         0 \<le> currentIndex c' \<and> currentIndex c' \<le> int (length (sections c)) - 1 \<and>
         locked c' \<and>
         scrolls b' = scrolls b @
           [ScrollTo (num_sub (num_add (scrollY (page b))
                        (rect_top (page b) (sections c ! nat (currentIndex c')))) (Fin 80)) bh]"
    by (intro exI [of _ c1] exI [of _ b1]) simp
  from scrollToIndex_nonempty [OF ne, of idx b] obtain c2 b2
    where s: "scrollToIndex idx (c, b) = Inr (c2, b2)" "sections c2 = sections c"
      "currentIndex c2 = clamp idx 0 (int (length (sections c)) - 1)" "locked c2"
      "scrolls b2 = scrolls b @
         [scroll_request Part000 Smooth b
            (sections c ! nat (clamp idx 0 (int (length (sections c)) - 1)))]"
    by blast
  have "scrolls b2 = scrolls b @ [ScrollIntoView (sections c ! nat (currentIndex c2))]"
    using s(3,5) by (simp add: scroll_request_def)
  with s r [of idx] k [of idx]
  show "\<exists>c' b'. scrollToIndex idx (c, b) = Inr (c', b') \<and> sections c' = sections c \<and>
         currentIndex c' = clamp idx 0 (int (length (sections c)) - 1) \<and>
         currentIndex c' =
           (if idx < 0 then 0
            else if int (length (sections c)) - 1 < idx then int (length (sections c)) - 1
            else idx) \<and>
         0 \<le> currentIndex c' \<and> currentIndex c' \<le> int (length (sections c)) - 1 \<and>
         locked c' \<and>
         scrolls b' = scrolls b @ [ScrollIntoView (sections c ! nat (currentIndex c'))]"
    by (intro exI [of _ c2] exI [of _ b2]) simp
  from navTo_nonempty [OF ne, of v "currentIndex c + 1" b] k [of "currentIndex c + 1"]
  show "\<exists>c' b'. next_nav v (c, b) = Inr (c', b') \<and>
         currentIndex c' =
           (if currentIndex c + 1 < 0 then 0
            else if int (length (sections c)) - 1 < currentIndex c + 1
              then int (length (sections c)) - 1
            else currentIndex c + 1)"
    by (auto simp add: next_nav_def)
  from navTo_nonempty [OF ne, of v "currentIndex c - 1" b] k [of "currentIndex c - 1"]
  show "\<exists>c' b'. prev_nav v (c, b) = Inr (c', b') \<and>
         currentIndex c' =
           (if currentIndex c - 1 < 0 then 0
            else if int (length (sections c)) - 1 < currentIndex c - 1
              then int (length (sections c)) - 1
            else currentIndex c - 1)"
    by (auto simp add: prev_nav_def)
  from navTo_nonempty [OF ne, of v 0 b] clamp_low [OF hi, of 0]
  show "\<exists>c' b'. navTo v 0 (c, b) = Inr (c', b') \<and> currentIndex c' = 0"
    by auto
  from navTo_nonempty [OF ne, of v "int (length (sections c)) - 1" b]
    clamp_high [OF hi, of "int (length (sections c)) - 1"]
  show "\<exists>c' b'. navTo v (int (length (sections c)) - 1) (c, b) = Inr (c', b') \<and>
         currentIndex c' = int (length (sections c)) - 1"
    by auto
  {
    assume "int (length (sections c)) - 1 \<le> currentIndex c"
    then have "clamp (currentIndex c + 1) 0 (int (length (sections c)) - 1)
      = int (length (sections c)) - 1"
      using hi by (simp add: clamp_def)
    with navTo_nonempty [OF ne, of v "currentIndex c + 1" b]
    show "\<exists>c' b'. next_nav v (c, b) = Inr (c', b') \<and>
            currentIndex c' = int (length (sections c)) - 1"
      by (auto simp add: next_nav_def)
  }
  {
    assume "currentIndex c \<le> 0"
    then have "clamp (currentIndex c - 1) 0 (int (length (sections c)) - 1) = 0"
      using hi by (simp add: clamp_def)
    with navTo_nonempty [OF ne, of v "currentIndex c - 1" b]
    show "\<exists>c' b'. prev_nav v (c, b) = Inr (c', b') \<and> currentIndex c' = 0"
      by (auto simp add: prev_nav_def)
  }
next
  from steps_index_ok [of v evs c b]
  show "\<exists>ocs c' b'. steps v evs (c, b) = Inr (ocs, c', b') \<and> (index_ok c \<longrightarrow> index_ok c')"
    by blast
next
  show "index_ok init_ctl"
    by (simp add: index_ok_def init_ctl_def)
qed


theorem jump_clamps_index_witness:
  "sections ex_ctl \<noteq> [] \<and> index_ok ex_ctl \<and> int (length (sections ex_ctl)) - 1 = 2 \<and>
   (\<exists>c' b'. jumpToIndex 7 Smooth (ex_ctl, ex_browser) = Inr (c', b') \<and> currentIndex c' = 2) \<and>
   (\<exists>c' b'. jumpToIndex 1 Smooth (ex_ctl\<lparr>currentIndex := 0\<rparr>, ex_browser) = Inr (c', b') \<and>
      currentIndex c' = 1) \<and>
   (\<exists>c' b'. scrollToIndex (- 3) (ex_ctl, ex_browser) = Inr (c', b') \<and> currentIndex c' = 0) \<and>
   (\<exists>c' b'. next_nav ScriptJs (ex_ctl\<lparr>currentIndex := 0\<rparr>, ex_browser) = Inr (c', b') \<and>
      currentIndex c' = 1) \<and>
   (\<exists>c' b'. prev_nav Part000 (ex_ctl\<lparr>currentIndex := 2\<rparr>, ex_browser) = Inr (c', b') \<and>
      currentIndex c' = 1) \<and>
   (\<exists>c' b'. next_nav ScriptJs (ex_ctl\<lparr>currentIndex := 2\<rparr>, ex_browser) = Inr (c', b') \<and>
      currentIndex c' = 2) \<and>
   (\<exists>c' b'. prev_nav Part000 (ex_ctl\<lparr>currentIndex := 0\<rparr>, ex_browser) = Inr (c', b') \<and>
      currentIndex c' = 0) \<and>
   (\<exists>ocs c' b'.
      steps ScriptJs
        [EvKeyDown \<lparr>key = ''End'', repeat = False\<rparr>, EvTick 400, EvTimer 2,
         EvKeyDown \<lparr>key = ''ArrowDown'', repeat = False\<rparr>]
        (ex_ctl, ex_browser) = Inr (ocs, c', b') \<and> index_ok c')"
proof -
  have ne: "sections ex_ctl \<noteq> []" "sections (ex_ctl\<lparr>currentIndex := k\<rparr>) \<noteq> []" for k
    by (simp_all add: ex_ctl_def)
  have ok: "index_ok ex_ctl"
    by (simp add: index_ok_def ex_ctl_def init_ctl_def)
  have len: "int (length (sections ex_ctl)) - 1 = 2"
    "int (length (sections (ex_ctl\<lparr>currentIndex := k\<rparr>))) - 1 = 2" for k
    by (simp_all add: ex_ctl_def)
  have cur: "2 \<le> currentIndex (ex_ctl\<lparr>currentIndex := 2\<rparr>)"
    "currentIndex (ex_ctl\<lparr>currentIndex := 0\<rparr>) \<le> 0"
    by simp_all
  note t = jump_clamps_index [THEN conjunct1, rule_format]
  have a: "\<exists>c' b'. jumpToIndex 7 Smooth (ex_ctl, ex_browser) = Inr (c', b') \<and> currentIndex c' = 2"
    using t [where c = ex_ctl and idx = 7 and bh = Smooth and b = ex_browser, OF ne(1),
        THEN conjunct1]
    unfolding len by auto
  have a2: "\<exists>c' b'. jumpToIndex 1 Smooth (ex_ctl\<lparr>currentIndex := 0\<rparr>, ex_browser) = Inr (c', b') \<and>
      currentIndex c' = 1"
    using t [where c = "ex_ctl\<lparr>currentIndex := 0\<rparr>" and idx = 1 and bh = Smooth
        and b = ex_browser, OF ne(2), THEN conjunct1]
    unfolding len by auto
  have b: "\<exists>c' b'. scrollToIndex (- 3) (ex_ctl, ex_browser) = Inr (c', b') \<and> currentIndex c' = 0"
    using t [where c = ex_ctl and idx = "- 3" and b = ex_browser, OF ne(1),
        THEN conjunct2, THEN conjunct1]
    unfolding len by auto
  have n1: "\<exists>c' b'. next_nav ScriptJs (ex_ctl\<lparr>currentIndex := 0\<rparr>, ex_browser) = Inr (c', b') \<and>
      currentIndex c' = 1"
    using t [where c = "ex_ctl\<lparr>currentIndex := 0\<rparr>" and v = ScriptJs and b = ex_browser, OF ne(2),
        THEN conjunct2, THEN conjunct2, THEN conjunct1]
    unfolding len by simp
  have p1: "\<exists>c' b'. prev_nav Part000 (ex_ctl\<lparr>currentIndex := 2\<rparr>, ex_browser) = Inr (c', b') \<and>
      currentIndex c' = 1"
    using t [where c = "ex_ctl\<lparr>currentIndex := 2\<rparr>" and v = Part000 and b = ex_browser, OF ne(2),
        THEN conjunct2, THEN conjunct2, THEN conjunct2, THEN conjunct1]
    unfolding len by simp
  have c: "\<exists>c' b'. next_nav ScriptJs (ex_ctl\<lparr>currentIndex := 2\<rparr>, ex_browser) = Inr (c', b') \<and>
      currentIndex c' = 2"
    using t [where c = "ex_ctl\<lparr>currentIndex := 2\<rparr>" and v = ScriptJs and b = ex_browser, OF ne(2),
        THEN conjunct2, THEN conjunct2, THEN conjunct2, THEN conjunct2, THEN conjunct1] cur
    unfolding len by blast
  have d: "\<exists>c' b'. prev_nav Part000 (ex_ctl\<lparr>currentIndex := 0\<rparr>, ex_browser) = Inr (c', b') \<and>
      currentIndex c' = 0"
    using t [where c = "ex_ctl\<lparr>currentIndex := 0\<rparr>" and v = Part000 and b = ex_browser, OF ne(2),
        THEN conjunct2, THEN conjunct2, THEN conjunct2, THEN conjunct2, THEN conjunct2,
        THEN conjunct1] cur
    unfolding len by blast
  have e: "\<exists>ocs c' b'.
      steps ScriptJs
        [EvKeyDown \<lparr>key = ''End'', repeat = False\<rparr>, EvTick 400, EvTimer 2,
         EvKeyDown \<lparr>key = ''ArrowDown'', repeat = False\<rparr>]
        (ex_ctl, ex_browser) = Inr (ocs, c', b') \<and> index_ok c'"
    using jump_clamps_index [where c = ex_ctl and b = ex_browser and v = ScriptJs and
        evs = "[EvKeyDown \<lparr>key = ''End'', repeat = False\<rparr>, EvTick 400, EvTimer 2,
         EvKeyDown \<lparr>key = ''ArrowDown'', repeat = False\<rparr>]", THEN conjunct2, THEN conjunct1] ok
    by blast
  from ne(1) ok len(1) a a2 b n1 p1 c d e show ?thesis
    by (intro conjI)
qed




lemma nearest_rounding_example:
  "round64 (- 1 / 10) = Fin (- 3602879701896397 / 2 ^ 55) \<and>
   round64 (1601 / 10) = Fin (5633017971422003 / 2 ^ 45) \<and>
   \<bar>5633017971422003 / 2 ^ 45 - 80\<bar> < \<bar>- 3602879701896397 / 2 ^ 55 - (80 :: real)\<bar> \<and>
   num_abs (num_sub (Fin (- 3602879701896397 / 2 ^ 55)) (Fin 80)) = Fin (2818268204315443 / 2 ^ 45) \<and>
   num_abs (num_sub (Fin (5633017971422003 / 2 ^ 45)) (Fin 80)) = Fin (2818268204315443 / 2 ^ 45) \<and>
   nearestSectionIndex (init_ctl\<lparr>sections := [10, 11]\<rparr>) (ex_browser\<lparr>page := ex_page_rounding\<rparr>) = 0"
proof -
  have a: "round64 (- 1 / 10) = Fin (- 3602879701896397 / 2 ^ 55)"
    "round64 (1601 / 10) = Fin (5633017971422003 / 2 ^ 45)"
    by (simp_all add: num_eval)
  have b: "\<bar>5633017971422003 / 2 ^ 45 - 80\<bar> < \<bar>- 3602879701896397 / 2 ^ 55 - (80 :: real)\<bar>"
    by simp
  have c: "num_abs (num_sub (Fin (- 3602879701896397 / 2 ^ 55)) (Fin 80)) = Fin (2818268204315443 / 2 ^ 45)"
    "num_abs (num_sub (Fin (5633017971422003 / 2 ^ 45)) (Fin 80)) = Fin (2818268204315443 / 2 ^ 45)"
    by (simp_all add: num_eval)
  have d: "nearestSectionIndex (init_ctl\<lparr>sections := [10, 11]\<rparr>) (ex_browser\<lparr>page := ex_page_rounding\<rparr>) = 0"
    by (simp add: nearestSectionIndex_def ex_page_rounding_def HEADER_OFFSET_def Let_def num_eval)
  from a b c d show ?thesis
    by (intro conjI)
qed


subsection \<open>Keyboard and wheel input\<close>

lemma onKeyDown_repeat:
  "repeat e \<Longrightarrow>
   onKeyDown v e (c, b) =
     Inr (\<lparr>defaultPrevented =
             (\<not> isOverlayOpen b \<and> \<not> isTyping b \<and>
              key e \<in> set (nextKeys @ prevKeys @ [''Home'', ''End''])),
           navCalled = None\<rparr>, c, b)"
  by (simp add: onKeyDown_def untouched_def Let_def)

lemma step_keydown_nav:
  "returns3 (\<lambda>oc w'. navCalled oc \<noteq> None \<longrightarrow> \<not> repeat e) (step v (EvKeyDown e) w)"
proof (cases "repeat e")
  case True
  then show ?thesis
    by (cases w) (simp add: step_def onKeyDown_repeat untouched_def)
next
  case False
  show ?thesis
    by (rule returns3_mono [OF step_index_ok]) (simp add: False)
qed

lemma steps_keydown_count:
  "\<exists>ocs c' b'. steps v (map EvKeyDown es) (c, b) = Inr (ocs, c', b') \<and>
     length ocs = length es \<and>
     (\<forall>i < length es. repeat (es ! i) \<longrightarrow> navCalled (ocs ! i) = None) \<and>
     length (filter (\<lambda>oc. navCalled oc \<noteq> None) ocs) \<le> length (filter (\<lambda>e. \<not> repeat e) es)"
proof (induction es arbitrary: c b)
  case Nil
  show ?case by simp
next
  case (Cons e es)
  from returns3D [OF step_keydown_nav [of e v "(c, b)"]] obtain oc c1 b1
    where s: "step v (EvKeyDown e) (c, b) = Inr (oc, c1, b1)"
      and k: "navCalled oc \<noteq> None \<longrightarrow> \<not> repeat e"
    by auto
  from Cons.IH [of c1 b1] obtain ocs c' b'
    where r: "steps v (map EvKeyDown es) (c1, b1) = Inr (ocs, c', b')"
      and l: "length ocs = length es"
      and p: "\<forall>i < length es. repeat (es ! i) \<longrightarrow> navCalled (ocs ! i) = None"
      and n: "length (filter (\<lambda>oc. navCalled oc \<noteq> None) ocs)
                \<le> length (filter (\<lambda>e. \<not> repeat e) es)"
    by blast
  have "steps v (map EvKeyDown (e # es)) (c, b) = Inr (oc # ocs, c', b')"
    by (simp add: s r)
  moreover have "length (oc # ocs) = length (e # es)"
    by (simp add: l)
  moreover have "\<forall>i < length (e # es). repeat ((e # es) ! i) \<longrightarrow> navCalled ((oc # ocs) ! i) = None"
    using k p by (auto simp add: nth_Cons split: nat.splits)
  moreover have "length (filter (\<lambda>oc. navCalled oc \<noteq> None) (oc # ocs))
                \<le> length (filter (\<lambda>e. \<not> repeat e) (e # es))"
    using k n by auto
  ultimately show ?case
    by (intro exI conjI)
qed

text \<open>
  Claim C5. A keydown event with the auto-repeat flag set never reaches a navigation
  call: \<^verbatim>\<open>onKeyDown\<close> returns the controller and the browser unchanged, and it prevents
  the default action exactly when the key is a navigation key and neither the overlay nor
  a text input suspends the handler. Over any sequence of keydown events the repeated
  ones navigate nowhere, so there are at most as many navigations as events without the
  flag: a key pressed once and held (one event without the flag, then any number with
  it) navigates at most once.
\<close>

theorem repeated_keydown_never_navigates:
  "(repeat e \<longrightarrow>
      (\<exists>oc. onKeyDown v e (c, b) = Inr (oc, c, b) \<and> navCalled oc = None \<and>
         (defaultPrevented oc \<longleftrightarrow>
            \<not> isOverlayOpen b \<and> \<not> isTyping b \<and>
            key e \<in> set (nextKeys @ prevKeys @ [''Home'', ''End''])))) \<and>
   (\<exists>ocs c' b'. steps v (map EvKeyDown es) (c, b) = Inr (ocs, c', b') \<and>
      length ocs = length es \<and>
      (\<forall>i < length es. repeat (es ! i) \<longrightarrow> navCalled (ocs ! i) = None) \<and>
      length (filter (\<lambda>oc. navCalled oc \<noteq> None) ocs) \<le> length (filter (\<lambda>e. \<not> repeat e) es)) \<and>
   (\<exists>ocs c' b'.
      steps v (map EvKeyDown (e\<lparr>repeat := False\<rparr> # replicate n (e\<lparr>repeat := True\<rparr>))) (c, b) =
        Inr (ocs, c', b') \<and>
      length (filter (\<lambda>oc. navCalled oc \<noteq> None) ocs) \<le> 1)"
proof (intro conjI impI)
  assume "repeat e"
  from onKeyDown_repeat [OF this, of v c b]
  show "\<exists>oc. onKeyDown v e (c, b) = Inr (oc, c, b) \<and> navCalled oc = None \<and>
         (defaultPrevented oc \<longleftrightarrow>
            \<not> isOverlayOpen b \<and> \<not> isTyping b \<and>
            key e \<in> set (nextKeys @ prevKeys @ [''Home'', ''End'']))"
    by simp
next
  show "\<exists>ocs c' b'. steps v (map EvKeyDown es) (c, b) = Inr (ocs, c', b') \<and>
      length ocs = length es \<and>
      (\<forall>i < length es. repeat (es ! i) \<longrightarrow> navCalled (ocs ! i) = None) \<and>
      length (filter (\<lambda>oc. navCalled oc \<noteq> None) ocs) \<le> length (filter (\<lambda>e. \<not> repeat e) es)"
    by (rule steps_keydown_count)
next
  let ?es = "e\<lparr>repeat := False\<rparr> # replicate n (e\<lparr>repeat := True\<rparr>)"
  have "length (filter (\<lambda>e. \<not> repeat e) ?es) = 1"
    by simp
  with steps_keydown_count [of v ?es c b]
  show "\<exists>ocs c' b'. steps v (map EvKeyDown ?es) (c, b) = Inr (ocs, c', b') \<and>
      length (filter (\<lambda>oc. navCalled oc \<noteq> None) ocs) \<le> 1"
    by auto
qed


theorem repeated_keydown_never_navigates_witness:
  "repeat \<lparr>key = ''ArrowDown'', repeat = True\<rparr> \<and>
   (\<exists>oc. onKeyDown ScriptJs \<lparr>key = ''ArrowDown'', repeat = True\<rparr> (ex_ctl, ex_browser) =
           Inr (oc, ex_ctl, ex_browser) \<and>
         navCalled oc = None \<and> defaultPrevented oc) \<and>
   (\<exists>ocs c' b'.
      steps ScriptJs
        (map EvKeyDown
          (\<lparr>key = ''ArrowDown'', repeat = True\<rparr>\<lparr>repeat := False\<rparr> #
           replicate 2 (\<lparr>key = ''ArrowDown'', repeat = True\<rparr>\<lparr>repeat := True\<rparr>)))
        (ex_ctl, ex_browser) = Inr (ocs, c', b') \<and>
      length (filter (\<lambda>oc. navCalled oc \<noteq> None) ocs) \<le> 1)"
proof -
  let ?e = "\<lparr>key = ''ArrowDown'', repeat = True\<rparr>"
  have r: "repeat ?e"
    by simp
  have g: "\<not> isOverlayOpen ex_browser \<and> \<not> isTyping ex_browser \<and>
      key ?e \<in> set (nextKeys @ prevKeys @ [''Home'', ''End''])"
    by (simp add: isOverlayOpen_def isTyping_def ex_browser_def ex_page_def nextKeys_def)
  note t = repeated_keydown_never_navigates [where e = ?e and v = ScriptJs and c = ex_ctl
      and b = ex_browser and n = 2]
  from t [THEN conjunct1, rule_format, OF r] g
  have a: "\<exists>oc. onKeyDown ScriptJs ?e (ex_ctl, ex_browser) = Inr (oc, ex_ctl, ex_browser) \<and>
         navCalled oc = None \<and> defaultPrevented oc"
    by blast
  from r a t [THEN conjunct2, THEN conjunct2] show ?thesis
    by (intro conjI)
qed

lemma overlay_typing_page:
  "page b' = page b \<Longrightarrow> isOverlayOpen b' = isOverlayOpen b \<and> isTyping b' = isTyping b"
  by (simp add: isOverlayOpen_def isTyping_def)

lemma navTo_called_frame:
  "returns3 (\<lambda>oc w'. oc = \<lparr>defaultPrevented = True, navCalled = Some k\<rparr> \<and>
        wheelAccum (fst w') = wheelAccum (fst w) \<and> page (snd w') = page (snd w))
     (called k (navTo v idx w))"
  using navTo_frame [of w v idx]
  by (cases "navTo v idx w") (auto simp add: returns_def called_def)

lemma onWheel_below:
  assumes "\<not> isOverlayOpen b" "\<not> isTyping b" "\<not> isInsideScrollable (target e)" "\<not> locked c"
    and "num_lt (num_abs (num_add (wheelAccum c) (deltaY e))) (Fin 60)"
  shows "onWheel v e (c, b) =
             Inr (\<lparr>defaultPrevented = False, navCalled = None\<rparr>,
                  c\<lparr>wheelAccum := num_add (wheelAccum c) (deltaY e),
                    wheelResetTimer := Some (nextTimer b)\<rparr>,
                  snd (setTimeout WheelReset 140 (clearIfSet (wheelResetTimer c) b)))"
  using assms
  by (cases "wheelResetTimer c")
    (simp_all add: onWheel_def Let_def untouched_def WHEEL_ACCUM_THRESHOLD_def WHEEL_RESET_MS_def
      timer_defs)

lemma wheel_updates_swap:
  "c\<lparr>wheelResetTimer := t, wheelAccum := a\<rparr> = (c\<lparr>wheelAccum := a, wheelResetTimer := t\<rparr> :: ctl)"
  by simp

lemma onWheel_at:
  assumes "\<not> isOverlayOpen b" "\<not> isTyping b" "\<not> isInsideScrollable (target e)" "\<not> locked c"
    and "\<not> num_lt (num_abs (num_add (wheelAccum c) (deltaY e))) (Fin 60)"
  shows "onWheel v e (c, b) =
             called (if num_lt (Fin 0) (num_add (wheelAccum c) (deltaY e)) then NavNext else NavPrev)
               ((if num_lt (Fin 0) (num_add (wheelAccum c) (deltaY e)) then next_nav v else prev_nav v)
                  (c\<lparr>wheelAccum := Fin 0, wheelResetTimer := Some (nextTimer b)\<rparr>,
                   snd (setTimeout WheelReset 140 (clearIfSet (wheelResetTimer c) b))))"
  using assms
  by (cases "wheelResetTimer c")
    (simp_all add: onWheel_def Let_def untouched_def WHEEL_ACCUM_THRESHOLD_def WHEEL_RESET_MS_def
      timer_defs wheel_updates_swap)

lemma onWheel_step:
  assumes "\<not> isOverlayOpen b" "\<not> isTyping b" "\<not> isInsideScrollable (target e)" "\<not> locked c"
  shows "returns3 (\<lambda>oc w'.
            page (snd w') = page b \<and>
            (num_lt (num_abs (num_add (wheelAccum c) (deltaY e))) (Fin 60) \<longrightarrow>
               oc = \<lparr>defaultPrevented = False, navCalled = None\<rparr> \<and>
               wheelAccum (fst w') = num_add (wheelAccum c) (deltaY e)) \<and>
            (\<not> num_lt (num_abs (num_add (wheelAccum c) (deltaY e))) (Fin 60) \<longrightarrow>
               oc = \<lparr>defaultPrevented = True,
                      navCalled = Some (if num_lt (Fin 0) (num_add (wheelAccum c) (deltaY e))
                                        then NavNext else NavPrev)\<rparr> \<and>
               wheelAccum (fst w') = Fin 0))
          (onWheel v e (c, b))"
proof (cases "num_lt (num_abs (num_add (wheelAccum c) (deltaY e))) (Fin 60)")
  case True
  have "page (snd (setTimeout WheelReset 140 (clearIfSet (wheelResetTimer c) b))) = page b"
    by (cases "wheelResetTimer c") (simp_all add: timer_defs)
  with True show ?thesis
    by (simp add: onWheel_below [OF assms True])
next
  case False
  let ?w = "(c\<lparr>wheelAccum := Fin 0, wheelResetTimer := Some (nextTimer b)\<rparr>,
             snd (setTimeout WheelReset 140 (clearIfSet (wheelResetTimer c) b)))"
  have pg: "page (snd ?w) = page b"
    by (cases "wheelResetTimer c") (simp_all add: timer_defs)
  have n: "returns3 (\<lambda>oc w'. oc = \<lparr>defaultPrevented = True, navCalled = Some k\<rparr> \<and>
        wheelAccum (fst w') = Fin 0 \<and> page (snd w') = page b)
     (called k (navTo v idx ?w))" for k idx
    using navTo_called_frame [of k ?w v idx] pg
    by (auto elim: returns3_mono)
  show ?thesis
    unfolding onWheel_at [OF assms False]
    using False n [of NavNext "currentIndex c + 1"] n [of NavPrev "currentIndex c - 1"]
    by (auto simp add: next_nav_def prev_nav_def elim: returns3_mono)
qed

lemma wheel_reset_fires:
  assumes "timers b t = Some (due, WheelReset)" "due \<le> now b"
  shows "step v (EvTimer t) (c, b) =
           Inr (\<lparr>defaultPrevented = False, navCalled = None\<rparr>, c\<lparr>wheelAccum := Fin 0\<rparr>, clearTimeout t b)"
  using assms by (simp add: step_def run_callback_def quiet_def untouched_def)

lemma onWheel_run_paging:
  assumes "\<not> isOverlayOpen b" "\<not> isTyping b" "\<not> locked c"
    and "\<forall>e \<in> set es. \<not> isInsideScrollable (target e)"
  shows "\<exists>ocs c' b'. onWheel_run v es (c, b) = Inr (ocs, c', b') \<and>
           map navCalled ocs = map snd (wheel_paging (wheelAccum c) (map deltaY es)) \<and>
           map defaultPrevented ocs =
             map (\<lambda>x. snd x \<noteq> None) (wheel_paging (wheelAccum c) (map deltaY es)) \<and>
           wheelAccum c' = last (wheelAccum c # map fst (wheel_paging (wheelAccum c) (map deltaY es)))"
  using assms
proof (induction es arbitrary: c b)
  case Nil
  show ?case by simp
next
  case (Cons e es)
  let ?s = "num_add (wheelAccum c) (deltaY e)"
  from Cons.prems(4) have ns: "\<not> isInsideScrollable (target e)"
    and rest: "\<forall>e \<in> set es. \<not> isInsideScrollable (target e)"
    by simp_all
  from returns3D [OF onWheel_step [OF Cons.prems(1,2) ns Cons.prems(3), of v]] obtain oc c1 b1
    where s: "onWheel v e (c, b) = Inr (oc, c1, b1)"
      and pg: "page b1 = page b"
      and eff1: "num_lt (num_abs ?s) (Fin 60) \<longrightarrow>
               oc = \<lparr>defaultPrevented = False, navCalled = None\<rparr> \<and> wheelAccum c1 = ?s"
      and eff2: "\<not> num_lt (num_abs ?s) (Fin 60) \<longrightarrow>
               oc = \<lparr>defaultPrevented = True,
                      navCalled = Some (if num_lt (Fin 0) ?s then NavNext else NavPrev)\<rparr> \<and>
               wheelAccum c1 = Fin 0"
    by auto
  let ?c2 = "c1\<lparr>locked := False\<rparr>"
  have ex: "run_callback v LockExpire (c1, b1) = Inr (?c2, b1)"
    by (simp add: run_callback_def)
  from overlay_typing_page [OF pg] Cons.prems(1,2)
  have g1: "\<not> isOverlayOpen b1" "\<not> isTyping b1"
    by simp_all
  have ul: "\<not> locked ?c2"
    by simp
  from Cons.IH [OF g1 ul rest] obtain ocs c' b'
    where r: "onWheel_run v es (?c2, b1) = Inr (ocs, c', b')"
      and n: "map navCalled ocs = map snd (wheel_paging (wheelAccum ?c2) (map deltaY es))"
      and p: "map defaultPrevented ocs =
             map (\<lambda>x. snd x \<noteq> None) (wheel_paging (wheelAccum ?c2) (map deltaY es))"
      and a: "wheelAccum c' =
                last (wheelAccum ?c2 # map fst (wheel_paging (wheelAccum ?c2) (map deltaY es)))"
    by blast
  have acc2: "wheelAccum ?c2 = wheelAccum c1"
    by simp
  have "onWheel_run v (e # es) (c, b) = Inr (oc # ocs, c', b')"
    by (simp add: s ex r)
  moreover have "map navCalled (oc # ocs) = map snd (wheel_paging (wheelAccum c) (map deltaY (e # es)))"
    using eff1 eff2 n unfolding acc2 by (cases "num_lt (num_abs ?s) (Fin 60)") simp_all
  moreover have "map defaultPrevented (oc # ocs) =
             map (\<lambda>x. snd x \<noteq> None) (wheel_paging (wheelAccum c) (map deltaY (e # es)))"
    using eff1 eff2 p unfolding acc2 by (cases "num_lt (num_abs ?s) (Fin 60)") simp_all
  moreover have "wheelAccum c' =
      last (wheelAccum c # map fst (wheel_paging (wheelAccum c) (map deltaY (e # es))))"
    using eff1 eff2 a unfolding acc2 by (cases "num_lt (num_abs ?s) (Fin 60)") simp_all
  ultimately show ?case
    by (intro exI conjI)
qed

lemma navTo_effect:
  "(sections c \<noteq> [] \<longrightarrow>
      (\<exists>c' b'. navTo v idx (c, b) = Inr (c', b') \<and> locked c' \<and>
         currentIndex c' =
           (if idx < 0 then 0
            else if int (length (sections c)) - 1 < idx then int (length (sections c)) - 1
            else idx) \<and>
         scrolls b' = scrolls b @ [scroll_request v Smooth b (sections c ! nat (currentIndex c'))])) \<and>
   (sections c = [] \<longrightarrow> navTo v idx (c, b) = Inr (c, b))"
proof (intro conjI impI)
  assume ne: "sections c \<noteq> []"
  then have hi: "0 \<le> int (length (sections c)) - 1"
    by (cases "sections c") simp_all
  from navTo_nonempty [OF ne, of v idx b] clamp_cases [OF hi, of idx]
  show "\<exists>c' b'. navTo v idx (c, b) = Inr (c', b') \<and> locked c' \<and>
         currentIndex c' =
           (if idx < 0 then 0
            else if int (length (sections c)) - 1 < idx then int (length (sections c)) - 1
            else idx) \<and>
         scrolls b' = scrolls b @ [scroll_request v Smooth b (sections c ! nat (currentIndex c'))]"
    by auto
next
  assume "sections c = []"
  then show "navTo v idx (c, b) = Inr (c, b)"
    by (rule navTo_empty)
qed


lemma scroll_request_page: "page b1 = page b \<Longrightarrow> scroll_request v bh b1 sec = scroll_request v bh b sec"
  by (cases v) (simp_all add: scroll_request_def)

lemma ifT: "P \<Longrightarrow> A \<Longrightarrow> if P then A else B"
  by simp

lemma ifF: "\<not> P \<Longrightarrow> B \<Longrightarrow> if P then A else B"
  by simp

lemma wheel_timer_armed:
  "page (snd (setTimeout WheelReset 140 (clearIfSet t b))) = page b"
  "scrolls (snd (setTimeout WheelReset 140 (clearIfSet t b))) = scrolls b"
  "timers (snd (setTimeout WheelReset 140 (clearIfSet t b))) (nextTimer b) = Some (now b + 140, WheelReset)"
  by (cases t; simp add: timer_defs)+

lemma onWheel_navigates:
  assumes "\<not> isOverlayOpen b" "\<not> isTyping b" "\<not> isInsideScrollable (target e)" "\<not> locked c"
    and "\<not> num_lt (num_abs (num_add (wheelAccum c) (deltaY e))) (Fin 60)"
  shows "\<exists>c' b'.
           onWheel v e (c, b) =
             Inr (\<lparr>defaultPrevented = True,
                   navCalled = Some (if num_lt (Fin 0) (num_add (wheelAccum c) (deltaY e))
                                     then NavNext else NavPrev)\<rparr>, c', b') \<and>
           Inr (c', b') =
             navTo v (currentIndex c + (if num_lt (Fin 0) (num_add (wheelAccum c) (deltaY e)) then 1 else - 1))
               (c\<lparr>wheelAccum := Fin 0, wheelResetTimer := Some (nextTimer b)\<rparr>,
                snd (setTimeout WheelReset 140 (clearIfSet (wheelResetTimer c) b))) \<and>
           wheelAccum c' = Fin 0 \<and> wheelResetTimer c' = Some (nextTimer b) \<and>
           (sections c \<noteq> [] \<longrightarrow>
              locked c' \<and>
              currentIndex c' =
                (if currentIndex c + (if num_lt (Fin 0) (num_add (wheelAccum c) (deltaY e)) then 1 else - 1) < 0
                 then 0
                 else if int (length (sections c)) - 1
                           < currentIndex c + (if num_lt (Fin 0) (num_add (wheelAccum c) (deltaY e)) then 1 else - 1)
                   then int (length (sections c)) - 1
                 else currentIndex c + (if num_lt (Fin 0) (num_add (wheelAccum c) (deltaY e)) then 1 else - 1)) \<and>
              scrolls b' = scrolls b @ [scroll_request v Smooth b (sections c ! nat (currentIndex c'))]) \<and>
           (sections c = [] \<longrightarrow>
              c' = c\<lparr>wheelAccum := Fin 0, wheelResetTimer := Some (nextTimer b)\<rparr> \<and>
              b' = snd (setTimeout WheelReset 140 (clearIfSet (wheelResetTimer c) b)))"
proof -
  let ?pos = "num_lt (Fin 0) (num_add (wheelAccum c) (deltaY e))"
  let ?t = "currentIndex c + (if ?pos then 1 else - 1)"
  let ?c0 = "c\<lparr>wheelAccum := Fin 0, wheelResetTimer := Some (nextTimer b)\<rparr>"
  let ?b1 = "snd (setTimeout WheelReset 140 (clearIfSet (wheelResetTimer c) b))"
  have eq: "onWheel v e (c, b) = called (if ?pos then NavNext else NavPrev) (navTo v ?t (?c0, ?b1))"
    unfolding onWheel_at [OF assms] by (simp add: next_nav_def prev_nav_def)
  from returnsD [OF navTo_frame [of "(?c0, ?b1)" v ?t]] obtain c' b'
    where r: "navTo v ?t (?c0, ?b1) = Inr (c', b')"
      and fr: "wheelAccum c' = Fin 0" "wheelResetTimer c' = Some (nextTimer b)"
    by auto
  have one: "onWheel v e (c, b) =
             Inr (\<lparr>defaultPrevented = True, navCalled = Some (if ?pos then NavNext else NavPrev)\<rparr>, c', b')"
    unfolding eq r by (simp add: called_def)
  note ef = navTo_effect [of ?c0 v ?t ?b1]
  have ne: "sections c \<noteq> [] \<longrightarrow>
              locked c' \<and>
              currentIndex c' =
                (if ?t < 0 then 0
                 else if int (length (sections c)) - 1 < ?t then int (length (sections c)) - 1
                 else ?t) \<and>
              scrolls b' = scrolls b @ [scroll_request v Smooth b (sections c ! nat (currentIndex c'))]"
  proof
    assume "sections c \<noteq> []"
    then have "sections ?c0 \<noteq> []" by simp
    from ef [THEN conjunct1, rule_format, OF this] r
    have "locked c'"
      and "currentIndex c' =
                (if ?t < 0 then 0
                 else if int (length (sections c)) - 1 < ?t then int (length (sections c)) - 1
                 else ?t)"
      and "scrolls b' = scrolls ?b1 @ [scroll_request v Smooth ?b1 (sections c ! nat (currentIndex c'))]"
      by auto
    then show "locked c' \<and>
              currentIndex c' =
                (if ?t < 0 then 0
                 else if int (length (sections c)) - 1 < ?t then int (length (sections c)) - 1
                 else ?t) \<and>
              scrolls b' = scrolls b @ [scroll_request v Smooth b (sections c ! nat (currentIndex c'))]"
      by (simp add: wheel_timer_armed scroll_request_page [OF wheel_timer_armed(1)])
  qed
  have em: "sections c = [] \<longrightarrow> c' = ?c0 \<and> b' = ?b1"
  proof
    assume "sections c = []"
    then have "sections ?c0 = []" by simp
    from ef [THEN conjunct2, rule_format, OF this] r show "c' = ?c0 \<and> b' = ?b1"
      by simp
  qed
  from one r [symmetric] fr ne em show ?thesis
    by (intro exI [of _ c'] exI [of _ b'] conjI)
qed

lemma wheel_exact_sum:
  assumes "wheelAccum c = Fin a" "deltaY e = Fin d" "round64 (a + d) = Fin (a + d)"
  shows "num_lt (num_abs (num_add (wheelAccum c) (deltaY e))) (Fin 60) \<longleftrightarrow> \<bar>a + d\<bar> < 60"
    and "num_lt (Fin 0) (num_add (wheelAccum c) (deltaY e)) \<longleftrightarrow> 0 < a + d"
  using assms by simp_all

text \<open>
  Claim C2. With no overlay and no text input focused, a wheel event that finds the
  controller unlocked and its target outside a scrollable element adds its
  \<^verbatim>\<open>deltaY\<close> to the accumulator (a sum of JavaScript numbers) and re-arms the reset
  timer of 140 ms. While the absolute sum is below 60 nothing else happens: no
  navigation, default not prevented. When it reaches 60 the default is prevented and the
  handler runs \<^verbatim>\<open>next\<close> for a positive sum and \<^verbatim>\<open>prev\<close> for a negative one, on
  the state with the accumulator back at 0: on a page with sections the input is locked,
  the current index moves one section in that direction (staying at the ends) and the
  scroll to that section is requested; on a page without sections nothing more happens.
  Where the addition is exact, the three cases are \<open>\<bar>a + d\<bar> < 60\<close>, \<open>60 \<le> a + d\<close>
  and \<open>a + d \<le> - 60\<close> of real arithmetic. The reset timer, when it fires, sets the
  accumulator to 0. Over every sequence of such events, each arriving when the lock of
  the navigation before it has been released, the navigations and the accumulator are
  those of \<open>wheel_paging\<close>.
\<close>

theorem wheel_accumulates_to_threshold:
  assumes "\<not> isOverlayOpen b" and "\<not> isTyping b"
  shows "(\<not> locked c \<and> \<not> isInsideScrollable (target e) \<longrightarrow>
            (\<exists>oc c' b'. onWheel v e (c, b) = Inr (oc, c', b') \<and>
               (if num_lt (num_abs (num_add (wheelAccum c) (deltaY e))) (Fin 60)
                then oc = \<lparr>defaultPrevented = False, navCalled = None\<rparr> \<and>
                     c' = c\<lparr>wheelAccum := num_add (wheelAccum c) (deltaY e),
                            wheelResetTimer := Some (nextTimer b)\<rparr> \<and>
                     b' = snd (setTimeout WheelReset 140 (clearIfSet (wheelResetTimer c) b)) \<and>
                     timers b' (nextTimer b) = Some (now b + 140, WheelReset)
                else oc = \<lparr>defaultPrevented = True,
                           navCalled = Some (if num_lt (Fin 0) (num_add (wheelAccum c) (deltaY e))
                                             then NavNext else NavPrev)\<rparr> \<and>
                     Inr (c', b') =
                       navTo v (currentIndex c +
                                  (if num_lt (Fin 0) (num_add (wheelAccum c) (deltaY e)) then 1 else - 1))
                         (c\<lparr>wheelAccum := Fin 0, wheelResetTimer := Some (nextTimer b)\<rparr>,
                          snd (setTimeout WheelReset 140 (clearIfSet (wheelResetTimer c) b))) \<and>
                     wheelAccum c' = Fin 0 \<and> wheelResetTimer c' = Some (nextTimer b) \<and>
                     (sections c \<noteq> [] \<longrightarrow>
                        locked c' \<and>
                        currentIndex c' =
                          (if currentIndex c +
                                (if num_lt (Fin 0) (num_add (wheelAccum c) (deltaY e)) then 1 else - 1) < 0
                           then 0
                           else if int (length (sections c)) - 1
                                     < currentIndex c +
                                         (if num_lt (Fin 0) (num_add (wheelAccum c) (deltaY e)) then 1 else - 1)
                             then int (length (sections c)) - 1
                           else currentIndex c +
                                  (if num_lt (Fin 0) (num_add (wheelAccum c) (deltaY e)) then 1 else - 1)) \<and>
                        scrolls b' =
                          scrolls b @ [scroll_request v Smooth b (sections c ! nat (currentIndex c'))]) \<and>
                     (sections c = [] \<longrightarrow>
                        c' = c\<lparr>wheelAccum := Fin 0, wheelResetTimer := Some (nextTimer b)\<rparr> \<and>
                        b' = snd (setTimeout WheelReset 140 (clearIfSet (wheelResetTimer c) b)))) \<and>
               (\<forall>a d. wheelAccum c = Fin a \<and> deltaY e = Fin d \<and> round64 (a + d) = Fin (a + d) \<longrightarrow>
                  (navCalled oc = None \<longleftrightarrow> \<bar>a + d\<bar> < 60) \<and>
                  (navCalled oc = Some NavNext \<longleftrightarrow> 60 \<le> a + d) \<and>
                  (navCalled oc = Some NavPrev \<longleftrightarrow> a + d \<le> - 60)))) \<and>
         (timers b t = Some (due, WheelReset) \<and> due \<le> now b \<longrightarrow>
            step v (EvTimer t) (c, b) =
              Inr (\<lparr>defaultPrevented = False, navCalled = None\<rparr>, c\<lparr>wheelAccum := Fin 0\<rparr>,
                   clearTimeout t b)) \<and>
         (\<not> locked c \<and> (\<forall>e \<in> set es. \<not> isInsideScrollable (target e)) \<longrightarrow>
            (\<exists>ocs c' b'. onWheel_run v es (c, b) = Inr (ocs, c', b') \<and>
               map navCalled ocs = map snd (wheel_paging (wheelAccum c) (map deltaY es)) \<and>
               map defaultPrevented ocs =
                 map (\<lambda>x. snd x \<noteq> None) (wheel_paging (wheelAccum c) (map deltaY es)) \<and>
               wheelAccum c' =
                 last (wheelAccum c # map fst (wheel_paging (wheelAccum c) (map deltaY es))))) \<and>
         WHEEL_ACCUM_THRESHOLD = Fin 60 \<and> WHEEL_RESET_MS = 140"
proof (intro conjI impI)
  assume g: "\<not> locked c \<and> \<not> isInsideScrollable (target e)"
  then have ul: "\<not> locked c" and ns: "\<not> isInsideScrollable (target e)"
    by simp_all
  let ?s = "num_add (wheelAccum c) (deltaY e)"
  show "\<exists>oc c' b'. onWheel v e (c, b) = Inr (oc, c', b') \<and>
               (if num_lt (num_abs (num_add (wheelAccum c) (deltaY e))) (Fin 60)
                then oc = \<lparr>defaultPrevented = False, navCalled = None\<rparr> \<and>
                     c' = c\<lparr>wheelAccum := num_add (wheelAccum c) (deltaY e),
                            wheelResetTimer := Some (nextTimer b)\<rparr> \<and>
                     b' = snd (setTimeout WheelReset 140 (clearIfSet (wheelResetTimer c) b)) \<and>
                     timers b' (nextTimer b) = Some (now b + 140, WheelReset)
                else oc = \<lparr>defaultPrevented = True,
                           navCalled = Some (if num_lt (Fin 0) (num_add (wheelAccum c) (deltaY e))
                                             then NavNext else NavPrev)\<rparr> \<and>
                     Inr (c', b') =
                       navTo v (currentIndex c +
                                  (if num_lt (Fin 0) (num_add (wheelAccum c) (deltaY e)) then 1 else - 1))
                         (c\<lparr>wheelAccum := Fin 0, wheelResetTimer := Some (nextTimer b)\<rparr>,
                          snd (setTimeout WheelReset 140 (clearIfSet (wheelResetTimer c) b))) \<and>
                     wheelAccum c' = Fin 0 \<and> wheelResetTimer c' = Some (nextTimer b) \<and>
                     (sections c \<noteq> [] \<longrightarrow>
                        locked c' \<and>
                        currentIndex c' =
                          (if currentIndex c +
                                (if num_lt (Fin 0) (num_add (wheelAccum c) (deltaY e)) then 1 else - 1) < 0
                           then 0
                           else if int (length (sections c)) - 1
                                     < currentIndex c +
                                         (if num_lt (Fin 0) (num_add (wheelAccum c) (deltaY e)) then 1 else - 1)
                             then int (length (sections c)) - 1
                           else currentIndex c +
                                  (if num_lt (Fin 0) (num_add (wheelAccum c) (deltaY e)) then 1 else - 1)) \<and>
                        scrolls b' =
                          scrolls b @ [scroll_request v Smooth b (sections c ! nat (currentIndex c'))]) \<and>
                     (sections c = [] \<longrightarrow>
                        c' = c\<lparr>wheelAccum := Fin 0, wheelResetTimer := Some (nextTimer b)\<rparr> \<and>
                        b' = snd (setTimeout WheelReset 140 (clearIfSet (wheelResetTimer c) b)))) \<and>
               (\<forall>a d. wheelAccum c = Fin a \<and> deltaY e = Fin d \<and> round64 (a + d) = Fin (a + d) \<longrightarrow>
                  (navCalled oc = None \<longleftrightarrow> \<bar>a + d\<bar> < 60) \<and>
                  (navCalled oc = Some NavNext \<longleftrightarrow> 60 \<le> a + d) \<and>
                  (navCalled oc = Some NavPrev \<longleftrightarrow> a + d \<le> - 60))"
  proof (cases "num_lt (num_abs ?s) (Fin 60)")
    case True
    let ?oc = "\<lparr>defaultPrevented = False, navCalled = None\<rparr>"
    let ?c' = "c\<lparr>wheelAccum := ?s, wheelResetTimer := Some (nextTimer b)\<rparr>"
    let ?b' = "snd (setTimeout WheelReset 140 (clearIfSet (wheelResetTimer c) b))"
    have r: "onWheel v e (c, b) = Inr (?oc, ?c', ?b')"
      by (rule onWheel_below [OF assms ns ul True])
    have x: "\<forall>a d. wheelAccum c = Fin a \<and> deltaY e = Fin d \<and> round64 (a + d) = Fin (a + d) \<longrightarrow>
             (navCalled ?oc = None \<longleftrightarrow> \<bar>a + d\<bar> < 60) \<and>
             (navCalled ?oc = Some NavNext \<longleftrightarrow> 60 \<le> a + d) \<and>
             (navCalled ?oc = Some NavPrev \<longleftrightarrow> a + d \<le> - 60)"
      using True by auto
    have a: "?oc = \<lparr>defaultPrevented = False, navCalled = None\<rparr> \<and>
             ?c' = c\<lparr>wheelAccum := num_add (wheelAccum c) (deltaY e),
                     wheelResetTimer := Some (nextTimer b)\<rparr> \<and>
             ?b' = snd (setTimeout WheelReset 140 (clearIfSet (wheelResetTimer c) b)) \<and>
             timers ?b' (nextTimer b) = Some (now b + 140, WheelReset)"
      by (simp add: wheel_timer_armed(3))
    show ?thesis
      by (intro exI [of _ ?oc] exI [of _ ?c'] exI [of _ ?b'] conjI r ifT [OF True a] x)
  next
    case False
    let ?oc = "\<lparr>defaultPrevented = True,
                 navCalled = Some (if num_lt (Fin 0) ?s then NavNext else NavPrev)\<rparr>"
    from onWheel_navigates [OF assms ns ul False, of v] obtain c' b'
      where r: "onWheel v e (c, b) = Inr (?oc, c', b')"
        and rest: "Inr (c', b') =
             navTo v (currentIndex c + (if num_lt (Fin 0) ?s then 1 else - 1))
               (c\<lparr>wheelAccum := Fin 0, wheelResetTimer := Some (nextTimer b)\<rparr>,
                snd (setTimeout WheelReset 140 (clearIfSet (wheelResetTimer c) b))) \<and>
           wheelAccum c' = Fin 0 \<and> wheelResetTimer c' = Some (nextTimer b) \<and>
           (sections c \<noteq> [] \<longrightarrow>
              locked c' \<and>
              currentIndex c' =
                (if currentIndex c + (if num_lt (Fin 0) ?s then 1 else - 1) < 0
                 then 0
                 else if int (length (sections c)) - 1
                           < currentIndex c + (if num_lt (Fin 0) ?s then 1 else - 1)
                   then int (length (sections c)) - 1
                 else currentIndex c + (if num_lt (Fin 0) ?s then 1 else - 1)) \<and>
              scrolls b' = scrolls b @ [scroll_request v Smooth b (sections c ! nat (currentIndex c'))]) \<and>
           (sections c = [] \<longrightarrow>
              c' = c\<lparr>wheelAccum := Fin 0, wheelResetTimer := Some (nextTimer b)\<rparr> \<and>
              b' = snd (setTimeout WheelReset 140 (clearIfSet (wheelResetTimer c) b)))"
      by blast
    have x: "\<forall>a d. wheelAccum c = Fin a \<and> deltaY e = Fin d \<and> round64 (a + d) = Fin (a + d) \<longrightarrow>
             (navCalled ?oc = None \<longleftrightarrow> \<bar>a + d\<bar> < 60) \<and>
             (navCalled ?oc = Some NavNext \<longleftrightarrow> 60 \<le> a + d) \<and>
             (navCalled ?oc = Some NavPrev \<longleftrightarrow> a + d \<le> - 60)"
      using False by auto
    have o: "?oc = \<lparr>defaultPrevented = True,
                 navCalled = Some (if num_lt (Fin 0) ?s then NavNext else NavPrev)\<rparr>"
      by simp
    show ?thesis
      by (intro exI [of _ ?oc] exI [of _ c'] exI [of _ b'] conjI r ifF [OF False conjI [OF o rest]] x)
  qed
next
  assume "timers b t = Some (due, WheelReset) \<and> due \<le> now b"
  then show "step v (EvTimer t) (c, b) =
              Inr (\<lparr>defaultPrevented = False, navCalled = None\<rparr>, c\<lparr>wheelAccum := Fin 0\<rparr>,
                   clearTimeout t b)"
    by (simp add: wheel_reset_fires)
next
  assume "\<not> locked c \<and> (\<forall>e \<in> set es. \<not> isInsideScrollable (target e))"
  then have "\<not> locked c" and "\<forall>e \<in> set es. \<not> isInsideScrollable (target e)"
    by simp_all
  from onWheel_run_paging [OF assms this]
  show "\<exists>ocs c' b'. onWheel_run v es (c, b) = Inr (ocs, c', b') \<and>
               map navCalled ocs = map snd (wheel_paging (wheelAccum c) (map deltaY es)) \<and>
               map defaultPrevented ocs =
                 map (\<lambda>x. snd x \<noteq> None) (wheel_paging (wheelAccum c) (map deltaY es)) \<and>
               wheelAccum c' =
                 last (wheelAccum c # map fst (wheel_paging (wheelAccum c) (map deltaY es)))" .
next
  show "WHEEL_ACCUM_THRESHOLD = Fin 60" by (simp add: WHEEL_ACCUM_THRESHOLD_def)
  show "WHEEL_RESET_MS = 140" by (simp add: WHEEL_RESET_MS_def)
qed

lemma ex_guard:
  "\<not> isOverlayOpen ex_browser" "\<not> isTyping ex_browser"
  by (simp_all add: isOverlayOpen_def isTyping_def ex_browser_def ex_page_def)

lemma ex_guard_later:
  "\<not> isOverlayOpen (ex_browser\<lparr>timers := [1 \<mapsto> (1140, WheelReset)], now := 1200\<rparr>)"
  "\<not> isTyping (ex_browser\<lparr>timers := [1 \<mapsto> (1140, WheelReset)], now := 1200\<rparr>)"
  by (simp_all add: isOverlayOpen_def isTyping_def ex_browser_def ex_page_def)

lemma ex_paging:
  "wheel_paging (Fin 0) [Fin 25, Fin 25, Fin 25] =
     [(Fin 25, None), (Fin 50, None), (Fin 0, Some NavNext)]"
  "wheel_paging (Fin 0) [Fin 30, Fin 40, Fin (- 100), Fin 50] =
     [(Fin 30, None), (Fin 0, Some NavNext), (Fin 0, Some NavPrev), (Fin 50, None)]"
  "wheel_paging (Fin 0) [Fin (119 / 2), Fin (9007199254740991 / 2 ^ 54)] =
     [(Fin (119 / 2), None), (Fin 0, Some NavNext)]"
  by (simp_all add: num_eval)

lemma ex_paging_maps:
  "map snd (wheel_paging (Fin 0) [Fin 25, Fin 25, Fin 25]) = [None, None, Some NavNext]"
  "map (\<lambda>x. snd x \<noteq> None) (wheel_paging (Fin 0) [Fin 25, Fin 25, Fin 25]) = [False, False, True]"
  "last (Fin 0 # map fst (wheel_paging (Fin 0) [Fin 25, Fin 25, Fin 25])) = Fin 0"
  "map snd (wheel_paging (Fin 0) [Fin 30, Fin 40, Fin (- 100), Fin 50]) =
     [None, Some NavNext, Some NavPrev, None]"
  "map (\<lambda>x. snd x \<noteq> None) (wheel_paging (Fin 0) [Fin 30, Fin 40, Fin (- 100), Fin 50]) =
     [False, True, True, False]"
  "last (Fin 0 # map fst (wheel_paging (Fin 0) [Fin 30, Fin 40, Fin (- 100), Fin 50])) = Fin 50"
  "map snd (wheel_paging (Fin 0) [Fin (119 / 2), Fin (9007199254740991 / 2 ^ 54)]) =
     [None, Some NavNext]"
  "map (\<lambda>x. snd x \<noteq> None)
     (wheel_paging (Fin 0) [Fin (119 / 2), Fin (9007199254740991 / 2 ^ 54)]) = [False, True]"
  "last (Fin 0 # map fst (wheel_paging (Fin 0) [Fin (119 / 2), Fin (9007199254740991 / 2 ^ 54)])) =
     Fin 0"
  unfolding ex_paging by simp_all

lemma ex_sums:
  "num_add (Fin 0) (Fin 25) = Fin 25"
  "num_add (Fin 50) (Fin 25) = Fin 75"
  "num_sub (num_add (Fin 600) (Fin 710)) (Fin 80) = Fin 1230"
  "round64 (50 + 25) = Fin (50 + 25)"
  by (simp_all add: num_eval)

theorem wheel_accumulates_to_threshold_witness:
  "\<not> isOverlayOpen ex_browser \<and> \<not> isTyping ex_browser \<and>
   (\<exists>ocs c' b'.
      onWheel_run ScriptJs [ex_wheel 25, ex_wheel 25, ex_wheel 25] (ex_ctl, ex_browser) =
        Inr (ocs, c', b') \<and>
      map navCalled ocs = [None, None, Some NavNext] \<and>
      map defaultPrevented ocs = [False, False, True] \<and> wheelAccum c' = Fin 0) \<and>
   (\<exists>ocs c' b'.
      onWheel_run Part000 [ex_wheel 30, ex_wheel 40, ex_wheel (- 100), ex_wheel 50]
        (init_ctl, ex_browser) = Inr (ocs, c', b') \<and>
      map navCalled ocs = [None, Some NavNext, Some NavPrev, None] \<and>
      map defaultPrevented ocs = [False, True, True, False] \<and> wheelAccum c' = Fin 50) \<and>
   (\<exists>ocs c' b'.
      onWheel_run ScriptJs [ex_wheel (119 / 2), ex_wheel (9007199254740991 / 2 ^ 54)]
        (ex_ctl, ex_browser) = Inr (ocs, c', b') \<and>
      map navCalled ocs = [None, Some NavNext] \<and>
      map defaultPrevented ocs = [False, True] \<and> wheelAccum c' = Fin 0) \<and>
   119 / 2 + 9007199254740991 / 2 ^ 54 < (60 :: real) \<and>
   (\<exists>oc c' b'. onWheel ScriptJs (ex_wheel 25) (ex_ctl, ex_browser) = Inr (oc, c', b') \<and>
      oc = \<lparr>defaultPrevented = False, navCalled = None\<rparr> \<and> wheelAccum c' = Fin 25 \<and>
      timers b' 1 = Some (1140, WheelReset)) \<and>
   (\<exists>oc c' b'. onWheel ScriptJs (ex_wheel 25) (ex_ctl\<lparr>wheelAccum := Fin 50\<rparr>, ex_browser) =
        Inr (oc, c', b') \<and>
      oc = \<lparr>defaultPrevented = True, navCalled = Some NavNext\<rparr> \<and> wheelAccum c' = Fin 0 \<and>
      locked c' \<and> currentIndex c' = 2 \<and> scrolls b' = [ScrollTo (Fin 1230) Smooth]) \<and>
   step ScriptJs (EvTimer 1)
     (ex_ctl\<lparr>wheelAccum := Fin 25\<rparr>, ex_browser\<lparr>timers := [1 \<mapsto> (1140, WheelReset)], now := 1200\<rparr>) =
     Inr (\<lparr>defaultPrevented = False, navCalled = None\<rparr>,
          ex_ctl\<lparr>wheelAccum := Fin 25, wheelAccum := Fin 0\<rparr>,
          clearTimeout 1 (ex_browser\<lparr>timers := [1 \<mapsto> (1140, WheelReset)], now := 1200\<rparr>))"
proof -
  note g = ex_guard
  let ?b2 = "ex_browser\<lparr>timers := [1 \<mapsto> (1140, WheelReset)], now := 1200\<rparr>"
  let ?c50 = "ex_ctl\<lparr>wheelAccum := Fin 50\<rparr>"
  have acc: "wheelAccum ex_ctl = Fin 0" "wheelAccum init_ctl = Fin 0" "wheelAccum ?c50 = Fin 50"
    by (simp_all add: ex_ctl_def init_ctl_def)
  have ds: "map deltaY [ex_wheel 25, ex_wheel 25, ex_wheel 25] = [Fin 25, Fin 25, Fin 25]"
    "map deltaY [ex_wheel 30, ex_wheel 40, ex_wheel (- 100), ex_wheel 50] =
       [Fin 30, Fin 40, Fin (- 100), Fin 50]"
    "map deltaY [ex_wheel (119 / 2), ex_wheel (9007199254740991 / 2 ^ 54)] =
       [Fin (119 / 2), Fin (9007199254740991 / 2 ^ 54)]"
    "deltaY (ex_wheel 25) = Fin 25"
    by (simp_all add: ex_wheel_def)
  have ul: "\<not> locked ex_ctl \<and> \<not> isInsideScrollable (target (ex_wheel 25))"
    "\<not> locked ?c50 \<and> \<not> isInsideScrollable (target (ex_wheel 25))"
    by (simp_all add: ex_ctl_def init_ctl_def ex_wheel_def isInsideScrollable_def)
  have sq: "\<not> locked ex_ctl \<and>
      (\<forall>e \<in> set [ex_wheel 25, ex_wheel 25, ex_wheel 25]. \<not> isInsideScrollable (target e))"
    "\<not> locked init_ctl \<and>
      (\<forall>e \<in> set [ex_wheel 30, ex_wheel 40, ex_wheel (- 100), ex_wheel 50].
         \<not> isInsideScrollable (target e))"
    "\<not> locked ex_ctl \<and>
      (\<forall>e \<in> set [ex_wheel (119 / 2), ex_wheel (9007199254740991 / 2 ^ 54)].
         \<not> isInsideScrollable (target e))"
    by (simp_all add: ex_ctl_def init_ctl_def ex_wheel_def isInsideScrollable_def)
  have nt: "nextTimer ex_browser = 1" "now ex_browser + 140 = 1140"
    by (simp_all add: ex_browser_def)
  have tm: "timers ?b2 1 = Some (1140, WheelReset) \<and> 1140 \<le> now ?b2"
    by simp
  note t1 = wheel_accumulates_to_threshold [OF g, where v = ScriptJs and c = ex_ctl
      and es = "[ex_wheel 25, ex_wheel 25, ex_wheel 25]" and e = "ex_wheel 25"]
  note t2 = wheel_accumulates_to_threshold [OF g, where v = Part000 and c = init_ctl
      and es = "[ex_wheel 30, ex_wheel 40, ex_wheel (- 100), ex_wheel 50]"]
  note t3 = wheel_accumulates_to_threshold [OF g, where v = ScriptJs and c = ?c50
      and e = "ex_wheel 25"]
  note t4 = wheel_accumulates_to_threshold [OF ex_guard_later,
      where v = ScriptJs and c = "ex_ctl\<lparr>wheelAccum := Fin 25\<rparr>" and t = 1 and due = 1140]
  note t5 = wheel_accumulates_to_threshold [OF g, where v = ScriptJs and c = ex_ctl
      and es = "[ex_wheel (119 / 2), ex_wheel (9007199254740991 / 2 ^ 54)]"]
  have a: "\<exists>ocs c' b'.
      onWheel_run ScriptJs [ex_wheel 25, ex_wheel 25, ex_wheel 25] (ex_ctl, ex_browser) =
        Inr (ocs, c', b') \<and>
      map navCalled ocs = [None, None, Some NavNext] \<and>
      map defaultPrevented ocs = [False, False, True] \<and> wheelAccum c' = Fin 0"
    using t1 [THEN conjunct2, THEN conjunct2, THEN conjunct1, rule_format, OF sq(1)]
    unfolding acc ds ex_paging_maps by blast
  have b: "\<exists>ocs c' b'.
      onWheel_run Part000 [ex_wheel 30, ex_wheel 40, ex_wheel (- 100), ex_wheel 50]
        (init_ctl, ex_browser) = Inr (ocs, c', b') \<and>
      map navCalled ocs = [None, Some NavNext, Some NavPrev, None] \<and>
      map defaultPrevented ocs = [False, True, True, False] \<and> wheelAccum c' = Fin 50"
    using t2 [THEN conjunct2, THEN conjunct2, THEN conjunct1, rule_format, OF sq(2)]
    unfolding acc ds ex_paging_maps by blast
  have r: "\<exists>ocs c' b'.
      onWheel_run ScriptJs [ex_wheel (119 / 2), ex_wheel (9007199254740991 / 2 ^ 54)]
        (ex_ctl, ex_browser) = Inr (ocs, c', b') \<and>
      map navCalled ocs = [None, Some NavNext] \<and>
      map defaultPrevented ocs = [False, True] \<and> wheelAccum c' = Fin 0"
    using t5 [THEN conjunct2, THEN conjunct2, THEN conjunct1, rule_format, OF sq(3)]
    unfolding acc ds ex_paging_maps by assumption
  have lt: "119 / 2 + 9007199254740991 / 2 ^ 54 < (60 :: real)"
    by simp
  have below: "num_lt (num_abs (Fin 25)) (Fin 60)" "\<not> num_lt (num_abs (Fin 75)) (Fin 60)"
    "num_lt (Fin 0) (Fin 75)"
    by simp_all
  have c: "\<exists>oc c' b'. onWheel ScriptJs (ex_wheel 25) (ex_ctl, ex_browser) = Inr (oc, c', b') \<and>
      oc = \<lparr>defaultPrevented = False, navCalled = None\<rparr> \<and> wheelAccum c' = Fin 25 \<and>
      timers b' 1 = Some (1140, WheelReset)"
    using t1 [THEN conjunct1, rule_format, OF ul(1)] below
    unfolding acc ds nt ex_sums by auto
  have secs: "sections ?c50 \<noteq> []" "currentIndex ?c50 = 1" "int (length (sections ?c50)) - 1 = 2"
    "sections ?c50 ! nat 2 = 12" "scrolls ex_browser = []"
    by (simp_all add: ex_ctl_def init_ctl_def ex_browser_def)
  have rq: "scroll_request ScriptJs Smooth ex_browser 12 = ScrollTo (Fin 1230) Smooth"
    by (simp add: ex_browser_def ex_page_def scroll_request_def num_eval)
  have d: "\<exists>oc c' b'. onWheel ScriptJs (ex_wheel 25) (?c50, ex_browser) = Inr (oc, c', b') \<and>
      oc = \<lparr>defaultPrevented = True, navCalled = Some NavNext\<rparr> \<and> wheelAccum c' = Fin 0 \<and>
      locked c' \<and> currentIndex c' = 2 \<and> scrolls b' = [ScrollTo (Fin 1230) Smooth]"
    using t3 [THEN conjunct1, rule_format, OF ul(2)] below secs rq
    unfolding acc ds ex_sums by auto
  note e = t4 [THEN conjunct2, THEN conjunct1, rule_format, OF tm]
  from g a b r lt c d e show ?thesis
    by (intro conjI)
qed


subsection \<open>The input lock and its safety timer\<close>

lemma lock_armed_iff:
  "lock_armed v (c, b) \<longleftrightarrow>
     ids_ok (themeStabilizeTimer c) (timers b) (nextTimer b) \<and>
     armed (MAX_LOCK_MS v) (locked c) (lockTimer c) (timers b) (now b)"
  by (auto simp add: lock_armed_def ids_ok_def armed_def split: option.splits)

lemma ids_ok_set: "ids_ok st tm nx \<Longrightarrow> ids_ok st (tm(nx \<mapsto> x)) (Suc nx)"
  by (auto simp add: ids_ok_def less_Suc_eq)

lemma ids_ok_clr: "ids_ok st tm nx \<Longrightarrow> ids_ok st (clr t tm) nx"
  by (auto simp add: ids_ok_def clr_def split: option.splits if_splits)

lemma ids_ok_del: "ids_ok st tm nx \<Longrightarrow> ids_ok st (tm(t := None)) nx"
  by (auto simp add: ids_ok_def split: if_splits)

lemma ids_ok_stab: "ids_ok st tm nx \<Longrightarrow> ids_ok (Some nx) (tm(nx \<mapsto> (d, ThemeStabilize))) (Suc nx)"
  by (auto simp add: ids_ok_def less_Suc_eq)

lemma ids_ok_none: "ids_ok st tm nx \<Longrightarrow> ids_ok None tm nx"
  by (auto simp add: ids_ok_def)

lemma armed_unlocked [simp]: "armed mx False lt tm nw"
  by (simp add: armed_def)

lemma armed_set: "ids_ok st tm nx \<Longrightarrow> armed mx lk lt tm nw \<Longrightarrow> armed mx lk lt (tm(nx \<mapsto> x)) nw"
  by (auto simp add: armed_def ids_ok_def split: option.splits)

lemma armed_lock: "d \<le> nw + mx \<Longrightarrow> armed mx lk (Some nx) (tm(nx \<mapsto> (d, LockExpire))) nw"
  by (simp add: armed_def)

lemma armed_clr_stab:
  "ids_ok st tm nx \<Longrightarrow> armed mx lk lt tm nw \<Longrightarrow> armed mx lk lt (clr st tm) nw"
  by (cases st) (auto simp add: armed_def ids_ok_def clr_def split: option.splits)

lemma armed_time: "armed mx lk lt tm nw \<Longrightarrow> armed mx lk lt tm (nw + n)"
  by (auto simp add: armed_def split: option.splits)

lemma clearIfSet_proj [simp]:
  "timers (clearIfSet t b) = clr t (timers b)"
  "nextTimer (clearIfSet t b) = nextTimer b"
  "now (clearIfSet t b) = now b"
  "page (clearIfSet t b) = page b"
  "listeners (clearIfSet t b) = listeners b"
  by (simp_all add: clearIfSet_def clearTimeout_def clr_def split: option.splits)

lemma setTimeout_proj [simp]:
  "fst (setTimeout cb ms b) = nextTimer b"
  "timers (snd (setTimeout cb ms b)) = (timers b)(nextTimer b \<mapsto> (now b + ms, cb))"
  "nextTimer (snd (setTimeout cb ms b)) = Suc (nextTimer b)"
  "now (snd (setTimeout cb ms b)) = now b"
  "page (snd (setTimeout cb ms b)) = page b"
  "listeners (snd (setTimeout cb ms b)) = listeners b"
  by (simp_all add: setTimeout_def)

lemmas armed_rules = ids_ok_set ids_ok_clr ids_ok_del ids_ok_stab ids_ok_none armed_set armed_lock
  armed_clr_stab armed_time

lemma lock_armed_unlockInput: "lock_armed v w \<Longrightarrow> lock_armed v (unlockInput w)"
  by (cases w) (auto simp add: lock_armed_iff unlockInput_def Let_def intro!: armed_rules)

lemma lock_armed_frame:
  "lock_armed v (syncState w) = lock_armed v w"
  "lock_armed v (attachListeners w) = lock_armed v w"
  "lock_armed v (detachListeners w) = lock_armed v w"
  by (cases w; simp add: lock_armed_iff syncState_def attachListeners_def detachListeners_def
      addEventListener_def removeEventListener_def Let_def)+

lemma max_lock_ge: "900 \<le> MAX_LOCK_MS v"
  by (cases v) simp_all

lemmas brute = lock_armed_iff ids_ok_def armed_def clr_def less_Suc_eq

lemma lock_armed_jumpToIndex:
  assumes "lock_armed v w"
  shows "returns (lock_armed v) (jumpToIndex idx bh w)"
proof (cases w)
  case (Pair c b)
  show ?thesis
  proof (cases "sections c = []")
    case True
    with assms Pair show ?thesis by (simp add: jumpToIndex_def)
  next
    case False
    with assms Pair nth_js_clamp [OF False, of idx] max_lock_ge [of v] show ?thesis
      by (auto simp add: jumpToIndex_def lockInput_def scrollTo_def Let_def split_beta brute
          split: option.splits)
  qed
qed

lemma lock_armed_scrollToIndex:
  assumes "lock_armed Part000 w"
  shows "returns (lock_armed Part000) (scrollToIndex idx w)"
proof (cases w)
  case (Pair c b)
  show ?thesis
  proof (cases "sections c = []")
    case True
    with assms Pair show ?thesis by (simp add: scrollToIndex_def)
  next
    case False
    with assms Pair nth_js_clamp [OF False, of idx] show ?thesis
      by (auto simp add: scrollToIndex_def lockInput_def scrollIntoView_def waitForSettle_def
          Let_def split_beta brute split: option.splits)
  qed
qed

lemma lock_armed_navTo: "lock_armed v w \<Longrightarrow> returns (lock_armed v) (navTo v idx w)"
  by (cases v) (simp_all add: navTo_def lock_armed_jumpToIndex lock_armed_scrollToIndex)


lemma lock_armed_settle_check: "lock_armed v w \<Longrightarrow> lock_armed v (settle_check sid w)"
  by (cases w)
    (auto simp add: settle_check_def unlockInput_def Let_def split_beta brute split: option.splits)

lemma lock_armed_hardReInit: "lock_armed v w \<Longrightarrow> lock_armed v (hardReInit w)"
  by (cases w)
    (auto simp add: hardReInit_def clearAllTimers_def detachListeners_def stopSettle_def
      removeEventListener_def requestAnimationFrame_def Let_def split_beta brute
      split: option.splits)

lemma lock_armed_applyTheme: "lock_armed v w \<Longrightarrow> returns (lock_armed v) (applyTheme mode w)"
  by (cases w)
    (auto simp add: applyTheme_def set_checked_def stabilizeAfterThemeSwitch_def Let_def split_beta
      brute split: option.splits)

lemma initTheme_cases:
  assumes "applyTheme (if localStorage b THEME_KEY = Some ''light'' then ''light'' else ''dark'') (c, b)
             = Inr (c1, b1)"
  shows "initTheme (c, b) = Inr (c1, b1) \<or>
         initTheme (c, b) = Inr (c1, addEventListener LSwitchChange b1)"
  using assms by (simp add: initTheme_def addSwitchListener_def Let_def split: option.splits)

lemma lock_armed_listeners:
  "lock_armed v (c, addEventListener l b) = lock_armed v (c, b)"
  "lock_armed v (c, removeEventListener l b) = lock_armed v (c, b)"
  by (simp_all add: lock_armed_iff addEventListener_def removeEventListener_def)

lemma lock_armed_initTheme:
  assumes "lock_armed v w"
  shows "returns (lock_armed v) (initTheme w)"
proof (cases w)
  case (Pair c b)
  let ?m = "if localStorage b THEME_KEY = Some ''light'' then ''light'' else ''dark''"
  from returnsD [OF lock_armed_applyTheme [OF assms, of ?m]] Pair obtain c1 b1
    where a: "applyTheme ?m (c, b) = Inr (c1, b1)" and k: "lock_armed v (c1, b1)"
    by auto
  from initTheme_cases [OF a] k Pair show ?thesis
    by (auto simp add: lock_armed_listeners)
qed

lemma lock_armed_initScroll: "lock_armed v w \<Longrightarrow> lock_armed v (initScroll w)"
  by (cases w)
    (auto simp add: initScroll_def attachListeners_def syncState_def addEventListener_def Let_def
      split_beta brute split: option.splits)

lemma lock_armed_onLoaded: "lock_armed v w \<Longrightarrow> returns (lock_armed v) (onLoaded v w)"
proof (cases v)
  case ScriptJs
  assume "lock_armed v w"
  then show ?thesis
    by (simp add: ScriptJs onLoaded_def lock_armed_initTheme lock_armed_initScroll)
next
  case Part000
  assume "lock_armed v w"
  then show ?thesis
    by (cases w)
      (auto simp add: Part000 onLoaded_def attachListeners_def syncState_def addSwitchListener_def
        addEventListener_def Let_def split_beta brute split: option.splits)
qed

lemma lock_armed_setTimeout:
  "lock_armed v (c, b) \<Longrightarrow> lock_armed v (c, snd (setTimeout cb ms b))"
  by (auto simp add: lock_armed_iff intro: armed_rules)

lemma lock_armed_run_callback:
  assumes "lock_armed v w"
  shows "returns (lock_armed v) (run_callback v cb w)"
proof (cases cb)
  case LockExpire
  with assms show ?thesis by (cases w) (auto simp add: run_callback_def brute)
next
  case WheelReset
  with assms show ?thesis by (cases w) (auto simp add: run_callback_def brute)
next
  case JumpDone
  with assms show ?thesis
    by (simp add: run_callback_def lock_armed_unlockInput lock_armed_frame)
next
  case HashSync
  with assms show ?thesis by (simp add: run_callback_def lock_armed_frame)
next
  case ThemeStabilize
  with assms show ?thesis
    by (cases w)
      (auto simp add: run_callback_def clearTimers_def unlockInput_def blur_active_def
        requestAnimationFrame_def Let_def split_beta brute split: option.splits)
next
  case (StabilizeFrame1 p)
  with assms show ?thesis
    by (cases w) (auto simp add: run_callback_def requestAnimationFrame_def brute)
next
  case (StabilizeFrame2 p)
  from assms have "lock_armed v (syncState w)"
    by (simp add: lock_armed_frame)
  from lock_armed_jumpToIndex [OF this, of "nearestSectionIndex (fst (syncState w)) (snd (syncState w))" Auto]
  have "returns (lock_armed v)
          (case jumpToIndex (nearestSectionIndex (fst (syncState w)) (snd (syncState w))) Auto (syncState w) of
             Inl e \<Rightarrow> Inl e
           | Inr (c2, b2) \<Rightarrow> Inr (c2, snd (setTimeout (StabilizeFinish p) 220 b2)))"
    by (auto simp add: returns_def lock_armed_setTimeout split: sum.splits)
  with StabilizeFrame2 show ?thesis
    by (simp add: run_callback_def Let_def)
next
  case (StabilizeFinish p)
  have "lock_armed v (c, b\<lparr>html_scrollBehavior := x\<rparr>) = lock_armed v (c, b)" for c b x
    by (simp add: lock_armed_iff)
  with StabilizeFinish assms show ?thesis
    by (cases w) (simp add: run_callback_def lock_armed_unlockInput lock_armed_frame)
next
  case (SettleCheck sid)
  with assms show ?thesis by (simp add: run_callback_def lock_armed_settle_check)
next
  case ReInitFrame1
  with assms show ?thesis
    by (cases w) (auto simp add: run_callback_def requestAnimationFrame_def brute)
next
  case ReInitFrame2
  with assms show ?thesis by (simp add: run_callback_def lock_armed_frame)
qed

lemma lock_armed_run_frames:
  "lock_armed v w \<Longrightarrow> returns (lock_armed v) (run_frames v cbs w)"
proof (induction cbs arbitrary: w)
  case Nil
  then show ?case by simp
next
  case (Cons cb cbs)
  from returnsD [OF lock_armed_run_callback [OF Cons.prems, of cb]] obtain c1 b1
    where r: "run_callback v cb w = Inr (c1, b1)" and k: "lock_armed v (c1, b1)"
    by auto
  from Cons.IH [OF k] r show ?case
    by simp
qed

lemma lock_armed_timer_fires:
  assumes "lock_armed v (c, b)" "timers b t = Some (due, cb)"
  shows "returns (lock_armed v) (run_callback v cb (c, clearTimeout t b))"
proof (cases "cb = LockExpire")
  case True
  with assms show ?thesis
    by (auto simp add: run_callback_def clearTimeout_def brute)
next
  case False
  with assms have "lock_armed v (c, clearTimeout t b)"
    by (auto simp add: clearTimeout_def brute split: option.splits)
  then show ?thesis
    by (rule lock_armed_run_callback)
qed


lemma lock_armed_onWheel:
  assumes "lock_armed v w"
  shows "returns3 (\<lambda>oc. lock_armed v) (onWheel v e w)"
proof (cases w)
  case (Pair c b)
  have n: "returns3 (\<lambda>oc. lock_armed v) (called k (navTo v idx x))" if "lock_armed v x" for k idx x
    by (rule returns3_called) (rule lock_armed_navTo [OF that])
  have m: "lock_armed v
      (c\<lparr>wheelAccum := a, wheelResetTimer := Some (nextTimer b)\<rparr>,
       snd (setTimeout WheelReset WHEEL_RESET_MS (clearIfSet (wheelResetTimer c) b)))"
    if "\<not> locked c" for a
    using assms Pair that by (auto simp add: lock_armed_iff intro: armed_rules)
  have m0: "lock_armed v
      (c\<lparr>wheelResetTimer := Some (nextTimer b), wheelAccum := Fin 0\<rparr>,
       snd (setTimeout WheelReset WHEEL_RESET_MS (clearIfSet (wheelResetTimer c) b)))"
    if "\<not> locked c"
    using assms Pair that by (auto simp add: lock_armed_iff intro: armed_rules)
  show ?thesis
    unfolding Pair onWheel_def next_nav_def prev_nav_def
    using assms Pair m m0 n
    by (simp add: Let_def split_beta)
qed

lemma lock_armed_onKeyDown:
  assumes "lock_armed v w"
  shows "returns3 (\<lambda>oc. lock_armed v) (onKeyDown v e w)"
proof (cases w)
  case (Pair c b)
  have n: "returns3 (\<lambda>oc. lock_armed v) (called k (navTo v idx (c, b)))" for k idx
    using assms Pair by (intro returns3_called lock_armed_navTo) simp
  show ?thesis
    unfolding Pair onKeyDown_def next_nav_def prev_nav_def
    using assms Pair n
    by (simp add: Let_def)
qed

lemma lock_armed_step:
  assumes "lock_armed v w" "v = Part000 \<or> ev \<noteq> EvDestroy"
  shows "returns3 (\<lambda>oc. lock_armed v) (step v ev w)"
proof (cases w)
  case (Pair c b)
  with assms have a: "lock_armed v (c, b)" by simp
  show ?thesis
  proof (cases ev)
    case EvDOMContentLoaded
    from a have "lock_armed v (c, removeEventListener LDOMContentLoaded b)"
      by (simp add: lock_armed_listeners)
    from returns3_quiet [OF lock_armed_onLoaded [OF this]] a Pair EvDOMContentLoaded
    show ?thesis by (simp add: step_def)
  next
    case (EvWheel e)
    with Pair a lock_armed_onWheel [OF a, of e] show ?thesis
      by (simp add: step_def)
  next
    case (EvKeyDown e)
    with Pair a lock_armed_onKeyDown [OF a, of e] show ?thesis
      by (simp add: step_def)
  next
    case EvResize
    from a have "lock_armed v (syncState (c, b))"
      by (simp add: lock_armed_frame)
    with Pair EvResize a show ?thesis
      by (cases "syncState (c, b)") (simp add: step_def)
  next
    case EvHashChange
    with Pair a lock_armed_setTimeout [OF a] show ?thesis
      by (simp add: step_def)
  next
    case (EvSwitchChange ch)
    have b1: "lock_armed v (c, b\<lparr>themeSwitch := x\<rparr>)" for x
      using a by (simp add: lock_armed_iff)
    have t: "returns3 (\<lambda>oc. lock_armed v) (quiet (applyTheme m (c, b\<lparr>themeSwitch := x\<rparr>)))" for m x
      by (rule returns3_quiet) (rule lock_armed_applyTheme [OF b1])
    have h: "lock_armed v (hardReInit (c, b\<lparr>themeSwitch := x\<rparr>))" for x
      by (rule lock_armed_hardReInit [OF b1])
    from Pair EvSwitchChange a b1 t h show ?thesis
      by (cases v; cases "themeSwitch b")
        (auto simp add: step_def Let_def split: prod.splits)
  next
    case EvBodyClass
    with Pair a lock_armed_hardReInit [OF a] show ?thesis
      by (cases "hardReInit (c, b)") (simp add: step_def)
  next
    case (EvTimer t)
    have "returns3 (\<lambda>oc. lock_armed v) (quiet (run_callback v cb (c, clearTimeout t b)))"
      if "timers b t = Some (due, cb)" for due cb
      by (rule returns3_quiet) (rule lock_armed_timer_fires [OF a that])
    with Pair EvTimer a show ?thesis
      by (simp add: step_def split: option.splits prod.splits)
  next
    case EvFrame
    from a have "lock_armed v (c, b\<lparr>frames := []\<rparr>)"
      by (simp add: lock_armed_iff)
    from returns3_quiet [OF lock_armed_run_frames [OF this]] Pair EvFrame show ?thesis
      by (simp add: step_def)
  next
    case (EvTick n)
    from a have "lock_armed v (c, b\<lparr>now := now b + n\<rparr>)"
      by (auto simp add: lock_armed_iff intro: armed_rules)
    with Pair EvTick show ?thesis by (simp add: step_def)
  next
    case (EvPage p)
    from a have "lock_armed v (c, b\<lparr>page := p\<rparr>)"
      by (simp add: lock_armed_iff)
    with Pair EvPage show ?thesis by (simp add: step_def)
  next
    case EvDestroy
    with assms Pair show ?thesis by (simp add: step_def)
  qed
qed

lemma lock_armed_steps:
  assumes "lock_armed v (c, b)" "v = Part000 \<or> EvDestroy \<notin> set evs"
  shows "\<exists>ocs c' b'. steps v evs (c, b) = Inr (ocs, c', b') \<and> lock_armed v (c', b')"
  using assms
proof (induction evs arbitrary: c b)
  case Nil
  then show ?case by simp
next
  case (Cons ev evs)
  from Cons.prems(2) have ne: "v = Part000 \<or> ev \<noteq> EvDestroy"
    and rest: "v = Part000 \<or> EvDestroy \<notin> set evs"
    by auto
  from returns3D [OF lock_armed_step [OF Cons.prems(1) ne]] obtain oc c1 b1
    where s: "step v ev (c, b) = Inr (oc, c1, b1)" and k: "lock_armed v (c1, b1)"
    by auto
  from Cons.IH [OF k rest] obtain ocs c' b'
    where r: "steps v evs (c1, b1) = Inr (ocs, c', b')" and k2: "lock_armed v (c', b')"
    by blast
  have "steps v (ev # evs) (c, b) = Inr (oc # ocs, c', b')"
    by (simp add: s r)
  with k2 show ?case
    by (intro exI conjI)
qed


lemma lockInput_arms:
  "\<exists>c' b'. lockInput v (c, b) = (c', b') \<and> locked c' \<and> lockTimer c' = Some (nextTimer b) \<and>
     timers b' (nextTimer b) = Some (now b + MAX_LOCK_MS v, LockExpire)"
  by (simp add: lockInput_def Let_def split_beta)

lemma lock_expire_fires:
  assumes "timers b t = Some (due, LockExpire)" "due \<le> now b"
  shows "step v (EvTimer t) (c, b) =
           Inr (\<lparr>defaultPrevented = False, navCalled = None\<rparr>, c\<lparr>locked := False\<rparr>, clearTimeout t b)"
  using assms by (simp add: step_def run_callback_def quiet_def untouched_def)

lemma lock_armed_init: "lock_armed v (init_ctl, b\<lparr>timers := Map.empty\<rparr>)"
  by (simp add: lock_armed_def init_ctl_def)

lemma armed_then_expires:
  assumes "lock_armed v (c, b)" "locked c"
  shows "\<exists>t due. lockTimer c = Some t \<and> timers b t = Some (due, LockExpire) \<and>
           due \<le> now b + MAX_LOCK_MS v \<and>
           (\<exists>ocs c2 b2. steps v [EvTick (due - now b), EvTimer t] (c, b) = Inr (ocs, c2, b2) \<and>
              \<not> locked c2)"
proof -
  from assms obtain t due where lt: "lockTimer c = Some t"
    and tm: "timers b t = Some (due, LockExpire)" and d: "due \<le> now b + MAX_LOCK_MS v"
    by (auto simp add: lock_armed_def)
  let ?b1 = "b\<lparr>now := now b + (due - now b)\<rparr>"
  have s1: "step v (EvTick (due - now b)) (c, b) = Inr (untouched, c, ?b1)"
    by (simp add: step_def)
  have "timers ?b1 t = Some (due, LockExpire)" "due \<le> now ?b1"
    using tm by simp_all
  from lock_expire_fires [OF this, of v c]
  have "steps v [EvTick (due - now b), EvTimer t] (c, b) =
          Inr ([untouched, \<lparr>defaultPrevented = False, navCalled = None\<rparr>], c\<lparr>locked := False\<rparr>,
               clearTimeout t ?b1)"
    by (simp add: s1)
  moreover have "\<not> locked (c\<lparr>locked := False\<rparr>)"
    by simp
  ultimately have "\<exists>ocs c2 b2. steps v [EvTick (due - now b), EvTimer t] (c, b) = Inr (ocs, c2, b2) \<and>
              \<not> locked c2"
    by blast
  with lt tm d show ?thesis
    by blast
qed

lemma unlocked_key_navigates:
  assumes "\<not> locked c" "\<not> isOverlayOpen b" "\<not> isTyping b"
  shows "\<exists>oc c' b'. onKeyDown v \<lparr>key = ''ArrowDown'', repeat = False\<rparr> (c, b) = Inr (oc, c', b') \<and>
           navCalled oc = Some NavNext"
proof -
  from returnsD [OF navTo_returns_index_ok [of v "currentIndex c + 1" "(c, b)"]] obtain c' b'
    where "navTo v (currentIndex c + 1) (c, b) = Inr (c', b')"
    by blast
  with assms
  have "onKeyDown v \<lparr>key = ''ArrowDown'', repeat = False\<rparr> (c, b) =
          Inr (\<lparr>defaultPrevented = True, navCalled = Some NavNext\<rparr>, c', b')"
    by (simp add: onKeyDown_def next_nav_def called_def nextKeys_def Let_def)
  then show ?thesis
    by simp
qed

text \<open>
  Claim C6, amended: in every execution of the unnamed variant, and in every execution
  of \<^verbatim>\<open>script.js\<close> that does not call \<^verbatim>\<open>destroy\<close>, the lock auto-expires.
  \<^verbatim>\<open>lockInput\<close> sets the flag and arms a timer, kept in \<^verbatim>\<open>lockTimer\<close>, that is
  due \<^verbatim>\<open>MAX_LOCK_MS\<close> later (900 ms in \<^verbatim>\<open>script.js\<close>, 1300 ms in the unnamed
  variant) and whose callback clears the flag. The lock invariant holds initially and
  after every such sequence of events of the event loop, whether or not a completion
  step ran. So whenever the controller is locked, its safety timer is pending and due
  within \<^verbatim>\<open>MAX_LOCK_MS\<close>, and once the clock has reached that time its firing leaves
  the controller unlocked. An unlocked controller accepts input again: a fresh ArrowDown
  calls \<^verbatim>\<open>next\<close>.
\<close>

theorem lock_auto_expires:
  "(\<exists>c' b'. lockInput v (c, b) = (c', b') \<and> locked c' \<and> lockTimer c' = Some (nextTimer b) \<and>
      timers b' (nextTimer b) = Some (now b + MAX_LOCK_MS v, LockExpire)) \<and>
   MAX_LOCK_MS ScriptJs = 900 \<and> MAX_LOCK_MS Part000 = 1300 \<and>
   (timers b t = Some (due, LockExpire) \<and> due \<le> now b \<longrightarrow>
      step v (EvTimer t) (c, b) =
        Inr (\<lparr>defaultPrevented = False, navCalled = None\<rparr>, c\<lparr>locked := False\<rparr>, clearTimeout t b)) \<and>
   lock_armed v (init_ctl, b\<lparr>timers := Map.empty\<rparr>) \<and>
   (lock_armed v (c, b) \<and> (v = Part000 \<or> EvDestroy \<notin> set evs) \<longrightarrow>
      (\<exists>ocs c' b'. steps v evs (c, b) = Inr (ocs, c', b') \<and> lock_armed v (c', b') \<and>
         (locked c' \<longrightarrow>
            (\<exists>t due. lockTimer c' = Some t \<and> timers b' t = Some (due, LockExpire) \<and>
               due \<le> now b' + MAX_LOCK_MS v \<and>
               (\<exists>ocs2 c2 b2.
                  steps v [EvTick (due - now b'), EvTimer t] (c', b') = Inr (ocs2, c2, b2) \<and>
                  \<not> locked c2))))) \<and>
   (\<not> locked c \<and> \<not> isOverlayOpen b \<and> \<not> isTyping b \<longrightarrow>
      (\<exists>oc c' b'. onKeyDown v \<lparr>key = ''ArrowDown'', repeat = False\<rparr> (c, b) = Inr (oc, c', b') \<and>
         navCalled oc = Some NavNext))"
proof (intro conjI impI)
  show "\<exists>c' b'. lockInput v (c, b) = (c', b') \<and> locked c' \<and> lockTimer c' = Some (nextTimer b) \<and>
      timers b' (nextTimer b) = Some (now b + MAX_LOCK_MS v, LockExpire)"
    by (rule lockInput_arms)
  show "MAX_LOCK_MS ScriptJs = 900" "MAX_LOCK_MS Part000 = 1300"
    by simp_all
  show "lock_armed v (init_ctl, b\<lparr>timers := Map.empty\<rparr>)"
    by (rule lock_armed_init)
next
  assume "timers b t = Some (due, LockExpire) \<and> due \<le> now b"
  then show "step v (EvTimer t) (c, b) =
        Inr (\<lparr>defaultPrevented = False, navCalled = None\<rparr>, c\<lparr>locked := False\<rparr>, clearTimeout t b)"
    by (simp add: lock_expire_fires)
next
  assume "lock_armed v (c, b) \<and> (v = Part000 \<or> EvDestroy \<notin> set evs)"
  then have "lock_armed v (c, b)" "v = Part000 \<or> EvDestroy \<notin> set evs"
    by simp_all
  from lock_armed_steps [OF this] obtain ocs c' b'
    where s: "steps v evs (c, b) = Inr (ocs, c', b')" and k: "lock_armed v (c', b')"
    by blast
  from armed_then_expires [OF k]
  have "locked c' \<longrightarrow>
            (\<exists>t due. lockTimer c' = Some t \<and> timers b' t = Some (due, LockExpire) \<and>
               due \<le> now b' + MAX_LOCK_MS v \<and>
               (\<exists>ocs2 c2 b2.
                  steps v [EvTick (due - now b'), EvTimer t] (c', b') = Inr (ocs2, c2, b2) \<and>
                  \<not> locked c2))"
    by blast
  with s k
  show "\<exists>ocs c' b'. steps v evs (c, b) = Inr (ocs, c', b') \<and> lock_armed v (c', b') \<and>
         (locked c' \<longrightarrow>
            (\<exists>t due. lockTimer c' = Some t \<and> timers b' t = Some (due, LockExpire) \<and>
               due \<le> now b' + MAX_LOCK_MS v \<and>
               (\<exists>ocs2 c2 b2.
                  steps v [EvTick (due - now b'), EvTimer t] (c', b') = Inr (ocs2, c2, b2) \<and>
                  \<not> locked c2)))"
    by (intro exI conjI)
next
  assume "\<not> locked c \<and> \<not> isOverlayOpen b \<and> \<not> isTyping b"
  then have "\<not> locked c" "\<not> isOverlayOpen b" "\<not> isTyping b"
    by simp_all
  then show "\<exists>oc c' b'. onKeyDown v \<lparr>key = ''ArrowDown'', repeat = False\<rparr> (c, b) = Inr (oc, c', b') \<and>
         navCalled oc = Some NavNext"
    by (rule unlocked_key_navigates)
qed


lemma ex_lock_armed: "lock_armed v (ex_ctl, ex_browser)"
  by (simp add: lock_armed_def ex_ctl_def ex_browser_def init_ctl_def)

lemma ex_locked_run_Part000:
  "case steps Part000
          [EvKeyDown \<lparr>key = ''ArrowDown'', repeat = False\<rparr>, EvDestroy, EvTick 100]
          (ex_ctl, ex_browser) of
     Inl x \<Rightarrow> False
   | Inr (ocs, c', b') \<Rightarrow>
       map navCalled ocs = [Some NavNext, None, None] \<and> locked c' \<and> lockTimer c' = Some 1 \<and>
       timers b' 1 = Some (2300, LockExpire) \<and> now b' = 1100 \<and> currentIndex c' = 2"
  by (simp add: step_def onKeyDown_def next_nav_def navTo_def scrollToIndex_def
      lockInput_def scrollIntoView_def waitForSettle_def setTimeout_def clearIfSet_def
      clearTimeout_def nth_js_def clamp_def SETTLE_CHECK_MS_def
      called_def untouched_def isOverlayOpen_def isTyping_def nextKeys_def
      prevKeys_def ex_ctl_def ex_browser_def ex_page_def init_ctl_def Let_def)

lemma ex_locked_run:
  "case steps ScriptJs
          [EvKeyDown \<lparr>key = ''ArrowDown'', repeat = False\<rparr>, EvWheel (ex_wheel 100), EvTick 100]
          (ex_ctl, ex_browser) of
     Inl x \<Rightarrow> False
   | Inr (ocs, c', b') \<Rightarrow>
       map navCalled ocs = [Some NavNext, None, None] \<and> locked c' \<and> lockTimer c' = Some 1 \<and>
       timers b' 1 = Some (1900, LockExpire) \<and> now b' = 1100 \<and> currentIndex c' = 2"
  by (simp add: step_def onKeyDown_def onWheel_def next_nav_def navTo_def jumpToIndex_def
      lockInput_def scrollTo_def setTimeout_def clearIfSet_def clearTimeout_def nth_js_def clamp_def
      called_def untouched_def isOverlayOpen_def isTyping_def isInsideScrollable_def nextKeys_def
      prevKeys_def ex_wheel_def ex_ctl_def ex_browser_def ex_page_def init_ctl_def Let_def)


theorem lock_auto_expires_witness:
  "lock_armed ScriptJs (ex_ctl, ex_browser) \<and>
   EvDestroy \<notin> set [EvKeyDown \<lparr>key = ''ArrowDown'', repeat = False\<rparr>, EvWheel (ex_wheel 100),
                      EvTick 100] \<and>
   (\<exists>ocs c' b'.
      steps ScriptJs
        [EvKeyDown \<lparr>key = ''ArrowDown'', repeat = False\<rparr>, EvWheel (ex_wheel 100), EvTick 100]
        (ex_ctl, ex_browser) = Inr (ocs, c', b') \<and>
      locked c' \<and> lockTimer c' = Some 1 \<and> timers b' 1 = Some (1900, LockExpire) \<and> now b' = 1100 \<and>
      (\<exists>ocs2 c2 b2. steps ScriptJs [EvTick 800, EvTimer 1] (c', b') = Inr (ocs2, c2, b2) \<and>
         \<not> locked c2)) \<and>
   lock_armed Part000 (ex_ctl, ex_browser) \<and>
   (\<exists>ocs c' b'.
      steps Part000
        [EvKeyDown \<lparr>key = ''ArrowDown'', repeat = False\<rparr>, EvDestroy, EvTick 100]
        (ex_ctl, ex_browser) = Inr (ocs, c', b') \<and>
      locked c' \<and> lockTimer c' = Some 1 \<and> timers b' 1 = Some (2300, LockExpire) \<and> now b' = 1100 \<and>
      (\<exists>ocs2 c2 b2. steps Part000 [EvTick 1200, EvTimer 1] (c', b') = Inr (ocs2, c2, b2) \<and>
         \<not> locked c2)) \<and>
   (\<exists>c' b'. lockInput Part000 (ex_ctl, ex_browser) = (c', b') \<and> locked c' \<and>
      lockTimer c' = Some 1 \<and> timers b' 1 = Some (2300, LockExpire))"
proof -
  let ?evs = "[EvKeyDown \<lparr>key = ''ArrowDown'', repeat = False\<rparr>, EvWheel (ex_wheel 100), EvTick 100]"
  let ?evp = "[EvKeyDown \<lparr>key = ''ArrowDown'', repeat = False\<rparr>, EvDestroy, EvTick 100]"
  have nd: "EvDestroy \<notin> set ?evs"
    by simp
  then have nd': "ScriptJs = Part000 \<or> EvDestroy \<notin> set ?evs"
    by simp
  have pd: "Part000 = Part000 \<or> EvDestroy \<notin> set ?evp"
    by simp
  note t = lock_auto_expires [where v = ScriptJs and c = ex_ctl and b = ex_browser and evs = ?evs]
  from t [THEN conjunct2, THEN conjunct2, THEN conjunct2, THEN conjunct2, THEN conjunct2,
      THEN conjunct1, rule_format, OF conjI, OF ex_lock_armed nd']
  obtain ocs c' b' where s: "steps ScriptJs ?evs (ex_ctl, ex_browser) = Inr (ocs, c', b')"
    and e: "locked c' \<longrightarrow>
            (\<exists>t due. lockTimer c' = Some t \<and> timers b' t = Some (due, LockExpire) \<and>
               due \<le> now b' + MAX_LOCK_MS ScriptJs \<and>
               (\<exists>ocs2 c2 b2.
                  steps ScriptJs [EvTick (due - now b'), EvTimer t] (c', b') = Inr (ocs2, c2, b2) \<and>
                  \<not> locked c2))"
    by blast
  from ex_locked_run s have f: "locked c'" "lockTimer c' = Some 1"
    "timers b' 1 = Some (1900, LockExpire)" "now b' = 1100"
    by simp_all
  from e f have x: "\<exists>ocs2 c2 b2. steps ScriptJs [EvTick 800, EvTimer 1] (c', b') = Inr (ocs2, c2, b2) \<and>
         \<not> locked c2"
    by auto
  have a: "\<exists>ocs c' b'.
      steps ScriptJs ?evs (ex_ctl, ex_browser) = Inr (ocs, c', b') \<and>
      locked c' \<and> lockTimer c' = Some 1 \<and> timers b' 1 = Some (1900, LockExpire) \<and> now b' = 1100 \<and>
      (\<exists>ocs2 c2 b2. steps ScriptJs [EvTick 800, EvTimer 1] (c', b') = Inr (ocs2, c2, b2) \<and>
         \<not> locked c2)"
    using s f x by blast
  note u = lock_auto_expires [where v = Part000 and c = ex_ctl and b = ex_browser and evs = ?evp]
  from u [THEN conjunct2, THEN conjunct2, THEN conjunct2, THEN conjunct2, THEN conjunct2,
      THEN conjunct1, rule_format, OF conjI, OF ex_lock_armed pd]
  obtain ocp cp bp where sp: "steps Part000 ?evp (ex_ctl, ex_browser) = Inr (ocp, cp, bp)"
    and ep: "locked cp \<longrightarrow>
            (\<exists>t due. lockTimer cp = Some t \<and> timers bp t = Some (due, LockExpire) \<and>
               due \<le> now bp + MAX_LOCK_MS Part000 \<and>
               (\<exists>ocs2 c2 b2.
                  steps Part000 [EvTick (due - now bp), EvTimer t] (cp, bp) = Inr (ocs2, c2, b2) \<and>
                  \<not> locked c2))"
    by blast
  from ex_locked_run_Part000 sp have fp: "locked cp" "lockTimer cp = Some 1"
    "timers bp 1 = Some (2300, LockExpire)" "now bp = 1100"
    by simp_all
  from ep fp have xp: "\<exists>ocs2 c2 b2. steps Part000 [EvTick 1200, EvTimer 1] (cp, bp) = Inr (ocs2, c2, b2) \<and>
         \<not> locked c2"
    by auto
  have ap: "\<exists>ocs c' b'.
      steps Part000 ?evp (ex_ctl, ex_browser) = Inr (ocs, c', b') \<and>
      locked c' \<and> lockTimer c' = Some 1 \<and> timers b' 1 = Some (2300, LockExpire) \<and> now b' = 1100 \<and>
      (\<exists>ocs2 c2 b2. steps Part000 [EvTick 1200, EvTimer 1] (c', b') = Inr (ocs2, c2, b2) \<and>
         \<not> locked c2)"
    using sp fp xp by blast
  have n: "nextTimer ex_browser = 1" "now ex_browser + MAX_LOCK_MS Part000 = 2300"
    by (simp_all add: ex_browser_def)
  have b: "\<exists>c' b'. lockInput Part000 (ex_ctl, ex_browser) = (c', b') \<and> locked c' \<and>
      lockTimer c' = Some 1 \<and> timers b' 1 = Some (2300, LockExpire)"
    using lock_auto_expires [where v = Part000 and c = ex_ctl and b = ex_browser, THEN conjunct1]
    unfolding n .
  from ex_lock_armed [of ScriptJs] nd a ex_lock_armed [of Part000] ap b show ?thesis
    by (intro conjI)
qed

text \<open>
  Claim C6 as stated, for every execution, does not hold of \<^verbatim>\<open>script.js\<close>:
  \<^verbatim>\<open>destroy\<close> (lines 257 to 265) calls \<^verbatim>\<open>clearTimers\<close>, which cancels the safety
  timer, and leaves the flag as it is. On the example page ArrowDown navigates, locks the
  input and arms the safety timer 1, due at 1900. After \<^verbatim>\<open>destroy\<close> the timer is
  gone: at 1900 nothing fires, the completion step (timer 2) has not run, the controller
  is still locked, and the wheel and key events that follow reach no handler.
\<close>

theorem destroy_cancels_safety_timer:
  "steps ScriptJs [EvKeyDown \<lparr>key = ''ArrowDown'', repeat = False\<rparr>] (ex_ctl, ex_browser) =
     Inr ([\<lparr>defaultPrevented = True, navCalled = Some NavNext\<rparr>],
          ex_ctl\<lparr>currentIndex := 2, locked := True, lockTimer := Some 1\<rparr>,
          ex_browser\<lparr>nextTimer := 3,
            timers := [1 \<mapsto> (1900, LockExpire), 2 \<mapsto> (1380, JumpDone)],
            scrolls := [ScrollTo (Fin 1230) Smooth]\<rparr>) \<and>
   steps ScriptJs
     [EvKeyDown \<lparr>key = ''ArrowDown'', repeat = False\<rparr>, EvDestroy, EvTick 900, EvTimer 1,
      EvWheel (ex_wheel 100), EvKeyDown \<lparr>key = ''ArrowUp'', repeat = False\<rparr>]
     (ex_ctl, ex_browser) =
     Inr ([\<lparr>defaultPrevented = True, navCalled = Some NavNext\<rparr>,
           \<lparr>defaultPrevented = False, navCalled = None\<rparr>,
           \<lparr>defaultPrevented = False, navCalled = None\<rparr>,
           \<lparr>defaultPrevented = False, navCalled = None\<rparr>,
           \<lparr>defaultPrevented = False, navCalled = None\<rparr>,
           \<lparr>defaultPrevented = False, navCalled = None\<rparr>],
          ex_ctl\<lparr>currentIndex := 2, locked := True, lockTimer := None, listenersAttached := False\<rparr>,
          ex_browser\<lparr>now := 1900, nextTimer := 3,
            timers := [2 \<mapsto> (1380, JumpDone)],
            listeners := [LSwitchChange],
            scrolls := [ScrollTo (Fin 1230) Smooth]\<rparr>)"
  by (simp add: step_def onKeyDown_def onWheel_def next_nav_def navTo_def jumpToIndex_def
      lockInput_def scrollTo_def setTimeout_def clearIfSet_def clearTimeout_def nth_js_def clamp_def
      destroy_def detachListeners_def clearTimers_def removeEventListener_def
      called_def untouched_def isOverlayOpen_def isTyping_def isInsideScrollable_def nextKeys_def
      prevKeys_def ex_wheel_def ex_ctl_def ex_browser_def ex_page_def init_ctl_def Let_def
      HEADER_OFFSET_def num_eval numeral_2_eq_2)

end
